theory Spec2Isabelle
  imports Main
begin

section \<open>The thread pool of thrdPool.h as a transition system\<close>

text \<open>
  The class \<^verbatim>\<open>ThreadPool\<close> has the members \<^verbatim>\<open>workers\<close>, \<^verbatim>\<open>tasks\<close>,
  \<^verbatim>\<open>queue_mutex\<close>, \<^verbatim>\<open>condition\<close> and \<^verbatim>\<open>stop\<close>. Every access to \<^verbatim>\<open>tasks\<close>
  and \<^verbatim>\<open>stop\<close> happens inside a block that holds \<^verbatim>\<open>queue_mutex\<close>, so each such block is one
  atomic step of the thread that runs it, and the mutex itself needs no field. The
  threads are interleaved by an explicit schedule (a list of events).

  What the model takes from the C++ standard library rather than from the repository:
  \<^verbatim>\<open>condition_variable\<close> (a waiting thread resumes only after a notification or a
  spurious wake-up, and then evaluates its predicate again under the lock),
  \<^verbatim>\<open>packaged_task\<close> and \<^verbatim>\<open>future\<close> (the call stores the value or the exception of the
  callable in the shared state, once), \<^verbatim>\<open>thread::join\<close>.

  What the model leaves out: a callable bound to its arguments is a thunk that either
  returns a value or throws, \<open>unit \<Rightarrow> exn + 'a\<close> with \<open>Inl\<close> the exception, so a
  callable that never returns is outside the model; creating a thread and allocating
  memory always succeed; the thread count, a \<^verbatim>\<open>size_t\<close>, is a natural number.
\<close>

subsection \<open>Data\<close>

datatype exn = Exception string

datatype error = runtime_error string | promise_already_satisfied | no_state

text \<open>The shared state behind a \<^verbatim>\<open>std::future\<close>: not yet set, a value, or an exception.\<close>

datatype 'a outcome = Pending | Value 'a | Failure exn

text \<open>
  The object built by \<^verbatim>\<open>std::make_shared<std::packaged_task<return_type()>>\<close>: the bound
  callable and the shared state of its future. Such objects live in the store \<open>packaged\<close>;
  a \<^verbatim>\<open>shared_ptr\<close> to one, and the future obtained from it, is its index there.
\<close>

record 'a packaged_task =
  callable :: "unit \<Rightarrow> exn + 'a"
  result :: "'a outcome"

text \<open>
  Where a worker thread is in its lambda: \<open>Ready\<close> at line 63 (about to take the lock and
  evaluate the wait predicate, at the loop head or after a wake-up), \<open>Waiting\<close> blocked
  inside \<^verbatim>\<open>condition.wait\<close>, \<open>Running t\<close> at line 82 holding the popped task \<open>t\<close> with the
  lock released, \<open>Terminated\<close> after the \<^verbatim>\<open>return\<close> of line 73, \<open>Crashed\<close> when an
  exception left \<^verbatim>\<open>task()\<close>.
\<close>

datatype worker = Ready | Waiting | Running nat | Terminated | Crashed

text \<open>
  Where the thread that destroys the pool is in \<^verbatim>\<open>~ThreadPool\<close>: not yet called, after the
  block that sets \<^verbatim>\<open>stop\<close>, in the join loop at worker \<open>k\<close>, returned.
\<close>

datatype dtor_pc = Alive | Stopped | Joining nat | Returned

text \<open>
  \<open>workers\<close>, \<open>tasks\<close> and \<open>stop\<close> are the members of the class; the wait set of
  \<^verbatim>\<open>condition\<close> is the set of workers in state \<open>Waiting\<close>. \<open>packaged\<close> is the store of
  packaged tasks, \<open>notifying\<close> counts the callers of \<^verbatim>\<open>enqueue\<close> that have left the locked
  block of lines 109-120 and not yet executed \<^verbatim>\<open>notify_one\<close> of line 123, \<open>owner\<close> is the
  progress of the destructor.
\<close>

record 'a pool =
  workers :: "worker list"
  tasks :: "nat list"
  stop :: bool
  packaged :: "'a packaged_task list"
  notifying :: nat
  owner :: dtor_pc

subsection \<open>Constructor\<close>

definition ThreadPool :: "nat \<Rightarrow> 'a pool" where
  "ThreadPool threads =
     \<lparr>workers = replicate threads Ready, tasks = [], stop = False,
      packaged = [], notifying = 0, owner = Alive\<rparr>"

subsection \<open>The condition variable\<close>

definition waiting :: "'a pool \<Rightarrow> nat list" where
  "waiting s = filter (\<lambda>i. workers s ! i = Waiting) [0..<length (workers s)]"

text \<open>
  \<^verbatim>\<open>notify_one\<close> unblocks one of the threads waiting on the condition variable if there
  is any, and does nothing otherwise; which one is the scheduler's choice \<open>k\<close>.
  \<^verbatim>\<open>notify_all\<close> unblocks all of them. An unblocked worker is \<open>Ready\<close>: it has yet to
  take the lock and evaluate its predicate.
\<close>

definition notify_one :: "nat \<Rightarrow> 'a pool \<Rightarrow> 'a pool" where
  "notify_one k s =
     (case waiting s of
        [] \<Rightarrow> s
      | w # ws \<Rightarrow> s\<lparr>workers := (workers s)[(w # ws) ! (k mod length (w # ws)) := Ready]\<rparr>)"

definition notify_all :: "'a pool \<Rightarrow> 'a pool" where
  "notify_all s = s\<lparr>workers := map (\<lambda>w. if w = Waiting then Ready else w) (workers s)\<rparr>"

subsection \<open>enqueue\<close>

definition bind_args :: "('b \<Rightarrow> exn + 'a) \<Rightarrow> 'b \<Rightarrow> (unit \<Rightarrow> exn + 'a)" where
  "bind_args f args = (\<lambda>_. f args)"

text \<open>
  Lines 102-120. The packaged task is allocated and its future taken before the lock is
  acquired; when \<^verbatim>\<open>stop\<close> is set the exception unwinds the frame, which releases the
  only \<^verbatim>\<open>shared_ptr\<close> and the future, so the object is destroyed again.
\<close>

definition enqueue_push :: "(unit \<Rightarrow> exn + 'a) \<Rightarrow> 'a pool \<Rightarrow> (error + nat) \<times> 'a pool" where
  "enqueue_push c s =
     (let task = length (packaged s);
          s1 = s\<lparr>packaged := packaged s @ [\<lparr>callable = c, result = Pending\<rparr>]\<rparr>
      in if stop s1
         then (Inl (runtime_error ''enqueue on stopped ThreadPool''),
               s1\<lparr>packaged := butlast (packaged s1)\<rparr>)
         else (Inr task, s1\<lparr>tasks := tasks s1 @ [task]\<rparr>))"

text \<open>The whole of \<^verbatim>\<open>enqueue\<close>, run without another thread in between.\<close>

definition enqueue :: "nat \<Rightarrow> ('b \<Rightarrow> exn + 'a) \<Rightarrow> 'b \<Rightarrow> 'a pool \<Rightarrow> (error + nat) \<times> 'a pool" where
  "enqueue k f args s =
     (case enqueue_push (bind_args f args) s of
        (Inl e, s') \<Rightarrow> (Inl e, s')
      | (Inr res, s') \<Rightarrow> (Inr res, notify_one k s'))"

text \<open>\<^verbatim>\<open>std::future::get\<close>: \<open>None\<close> while the caller is blocked, \<open>Inl\<close> the rethrown exception.\<close>

definition future_get :: "nat \<Rightarrow> 'a pool \<Rightarrow> (exn + 'a) option" where
  "future_get res s =
     (if res < length (packaged s)
      then (case result (packaged s ! res) of
              Pending \<Rightarrow> None
            | Value v \<Rightarrow> Some (Inr v)
            | Failure e \<Rightarrow> Some (Inl e))
      else None)"

subsection \<open>The worker lambda\<close>

datatype fetch = Block | Exit | Got nat

text \<open>
  Lines 61-79, the block under the lock. \<^verbatim>\<open>wait(lock, pred)\<close> returns only when the
  predicate holds under the lock; otherwise the thread blocks. \<open>hd\<close> and \<open>tl\<close> are
  \<^verbatim>\<open>front\<close> and \<^verbatim>\<open>pop\<close>, reached only with a non-empty queue.
\<close>

definition worker_fetch :: "'a pool \<Rightarrow> fetch \<times> 'a pool" where
  "worker_fetch s =
     (if \<not> (stop s \<or> tasks s \<noteq> []) then (Block, s)
      else if stop s \<and> tasks s = [] then (Exit, s)
      else (Got (hd (tasks s)), s\<lparr>tasks := tl (tasks s)\<rparr>))"

text \<open>
  \<^verbatim>\<open>(*task)()\<close>: \<^verbatim>\<open>packaged_task::operator()\<close> runs the callable and stores its value or
  its exception in the shared state. It throws \<^verbatim>\<open>future_error\<close> when the shared state is
  already set.
\<close>

definition settle :: "(unit \<Rightarrow> exn + 'a) \<Rightarrow> 'a outcome" where
  "settle c = (case c () of Inr v \<Rightarrow> Value v | Inl e \<Rightarrow> Failure e)"

definition invoke :: "nat \<Rightarrow> 'a pool \<Rightarrow> error + 'a pool" where
  "invoke t s =
     (if t < length (packaged s)
      then (case result (packaged s ! t) of
              Pending \<Rightarrow>
                Inr (s\<lparr>packaged := (packaged s)[t := (packaged s ! t)
                      \<lparr>result := settle (callable (packaged s ! t))\<rparr>]\<rparr>)
            | _ \<Rightarrow> Inl promise_already_satisfied)
      else Inl no_state)"

definition set_worker :: "nat \<Rightarrow> worker \<Rightarrow> 'a pool \<Rightarrow> 'a pool" where
  "set_worker i w s = s\<lparr>workers := (workers s)[i := w]\<rparr>"

text \<open>One step of worker thread \<open>i\<close>; a blocked or finished thread does nothing.\<close>

definition worker_step :: "nat \<Rightarrow> 'a pool \<Rightarrow> 'a pool" where
  "worker_step i s =
     (if i < length (workers s)
      then (case workers s ! i of
              Ready \<Rightarrow>
                (case worker_fetch s of
                   (Block, s') \<Rightarrow> set_worker i Waiting s'
                 | (Exit, s') \<Rightarrow> set_worker i Terminated s'
                 | (Got t, s') \<Rightarrow> set_worker i (Running t) s')
            | Running t \<Rightarrow>
                (case invoke t s of
                   Inr s' \<Rightarrow> set_worker i Ready s'
                 | Inl e \<Rightarrow> set_worker i Crashed s)
            | _ \<Rightarrow> s)
      else s)"

subsection \<open>Destructor\<close>

text \<open>
  Lines 132-136, then line 139, then the join loop of lines 142-144: \<^verbatim>\<open>join\<close> on worker
  \<open>k\<close> blocks until that thread has returned.
\<close>

definition dtor_step :: "'a pool \<Rightarrow> 'a pool" where
  "dtor_step s =
     (case owner s of
        Alive \<Rightarrow> s\<lparr>stop := True, owner := Stopped\<rparr>
      | Stopped \<Rightarrow> (notify_all s)\<lparr>owner := Joining 0\<rparr>
      | Joining k \<Rightarrow>
          (if k < length (workers s)
           then (if workers s ! k = Terminated then s\<lparr>owner := Joining (Suc k)\<rparr> else s)
           else s\<lparr>owner := Returned\<rparr>)
      | Returned \<Rightarrow> s)"

subsection \<open>Interleaving\<close>

text \<open>
  \<open>Push c\<close>: some thread runs lines 102-120 of \<^verbatim>\<open>enqueue\<close> with the bound callable \<open>c\<close>;
  \<open>Notify k\<close>: a thread that has pushed runs line 123; \<open>Wake i\<close>: a spurious wake-up of
  worker \<open>i\<close>, which the standard permits; \<open>Work i\<close>: worker \<open>i\<close> takes a step;
  \<open>Dtor\<close>: the destructor takes a step. An event that its thread cannot take (a blocked
  or finished worker, a join on a running worker) leaves the state as it is.
\<close>

datatype 'a event = Push "unit \<Rightarrow> exn + 'a" | Notify nat | Wake nat | Work nat | Dtor

fun fire :: "'a event \<Rightarrow> 'a pool \<Rightarrow> 'a pool" where
  "fire (Push c) s =
     (case enqueue_push c s of
        (Inl e, s') \<Rightarrow> s'
      | (Inr res, s') \<Rightarrow> s'\<lparr>notifying := Suc (notifying s')\<rparr>)"
| "fire (Notify k) s =
     (if 0 < notifying s then (notify_one k s)\<lparr>notifying := notifying s - 1\<rparr> else s)"
| "fire (Wake i) s =
     (if i < length (workers s) \<and> workers s ! i = Waiting then set_worker i Ready s else s)"
| "fire (Work i) s = worker_step i s"
| "fire Dtor s = dtor_step s"

fun run :: "'a event list \<Rightarrow> 'a pool \<Rightarrow> 'a pool" where
  "run [] s = s"
| "run (e # es) s = run es (fire e s)"

text \<open>
  The tasks on which line 82, \<^verbatim>\<open>task()\<close>, is executed along a schedule, in order, and the
  tasks taken from the queue by lines 77-78.
\<close>

fun invoked :: "'a event list \<Rightarrow> 'a pool \<Rightarrow> nat list" where
  "invoked [] s = []"
| "invoked (Work i # es) s =
     (if i < length (workers s)
      then (case workers s ! i of Running t \<Rightarrow> [t] | _ \<Rightarrow> [])
      else []) @ invoked es (fire (Work i) s)"
| "invoked (e # es) s = invoked es (fire e s)"

fun popped :: "'a event list \<Rightarrow> 'a pool \<Rightarrow> nat list" where
  "popped [] s = []"
| "popped (Work i # es) s =
     (if i < length (workers s) \<and> workers s ! i = Ready
      then (case fst (worker_fetch s) of Got t \<Rightarrow> [t] | _ \<Rightarrow> [])
      else []) @ popped es (fire (Work i) s)"
| "popped (e # es) s = popped es (fire e s)"

subsection \<open>The driver of example.cpp\<close>

text \<open>
  The lambda \<^verbatim>\<open>[i] { ...; return i * i; }\<close> of \<^verbatim>\<open>main\<close>, without its printing and
  sleeping; it takes no arguments, so its argument pack is \<open>()\<close>. For \<open>i\<close> from 0 to 7
  the product stays far inside the range of a C++ \<^verbatim>\<open>int\<close>.
\<close>

definition square_task :: "int \<Rightarrow> unit \<Rightarrow> exn + int" where
  "square_task i u = Inr (i * i)"



subsection \<open>Fair scheduling\<close>

fun is_work :: "nat \<Rightarrow> 'a event \<Rightarrow> bool" where
  "is_work i (Work j) = (i = j)"
| "is_work i _ = False"

fun is_notify :: "'a event \<Rightarrow> bool" where
  "is_notify (Notify k) = True"
| "is_notify _ = False"

fun is_push :: "'a event \<Rightarrow> bool" where
  "is_push (Push c) = True"
| "is_push _ = False"

text \<open>
  A round of a schedule in which each of the \<open>n\<close> worker threads is scheduled at least once
  and a caller of \<^verbatim>\<open>enqueue\<close> that stands before line 123 gets to execute it, while nothing
  new is submitted.
\<close>

definition fair_round :: "nat \<Rightarrow> 'a event list \<Rightarrow> bool" where
  "fair_round n r \<longleftrightarrow>
     (\<forall>i<n. list_ex (is_work i) r) \<and> list_ex is_notify r \<and> \<not> list_ex is_push r"

text \<open>The work left: tasks still in the queue, counted twice, and tasks taken but not run.\<close>

definition backlog :: "'a pool \<Rightarrow> nat" where
  "backlog s =
     length (tasks s) + length (filter (\<lambda>p. result p = Pending) (packaged s))"

text \<open>Worker \<open>i\<close> completes or takes a task at its next step.\<close>

definition will_progress :: "'a pool \<Rightarrow> nat \<Rightarrow> bool" where
  "will_progress s i \<longleftrightarrow>
     i < length (workers s) \<and>
     (case workers s ! i of Running t \<Rightarrow> True | Ready \<Rightarrow> tasks s \<noteq> [] | _ \<Rightarrow> False)"

subsection \<open>Invariants of the reachable states\<close>

text \<open>Packaged task \<open>t\<close> of a store has no outcome yet; some worker of a list holds task \<open>t\<close>.\<close>

definition pending :: "'a packaged_task list \<Rightarrow> nat \<Rightarrow> bool" where
  "pending ps t \<longleftrightarrow> t < length ps \<and> result (ps ! t) = Pending"

definition held :: "worker list \<Rightarrow> nat \<Rightarrow> bool" where
  "held ws t \<longleftrightarrow> (\<exists>i<length ws. ws ! i = Running t)"

text \<open>The queue holds indices of the store in increasing order, the order of allocation.\<close>

definition queue_sorted :: "'a pool \<Rightarrow> bool" where
  "queue_sorted s \<longleftrightarrow>
     sorted_wrt (<) (tasks s) \<and> (\<forall>t\<in>set (tasks s). t < length (packaged s))"

text \<open>
  A packaged task has no outcome yet exactly when it is in the queue or in the hands of
  one worker, and never both or in the hands of two.
\<close>

definition queue_pending :: "'a pool \<Rightarrow> bool" where
  "queue_pending s \<longleftrightarrow> (\<forall>t\<in>set (tasks s). pending (packaged s) t \<and> \<not> held (workers s) t)"

definition held_pending :: "'a pool \<Rightarrow> bool" where
  "held_pending s \<longleftrightarrow>
     (\<forall>i<length (workers s).
        case workers s ! i of Running t \<Rightarrow> pending (packaged s) t | _ \<Rightarrow> True)"

definition unique_holders :: "worker list \<Rightarrow> bool" where
  "unique_holders ws \<longleftrightarrow>
     (\<forall>i<length ws. \<forall>j<length ws.
        ws ! i = ws ! j \<longrightarrow> (case ws ! i of Running t \<Rightarrow> i = j | _ \<Rightarrow> True))"

definition pending_owned :: "'a pool \<Rightarrow> bool" where
  "pending_owned s \<longleftrightarrow>
     (\<forall>t<length (packaged s).
        pending (packaged s) t \<longrightarrow> t \<in> set (tasks s) \<or> held (workers s) t)"

definition terminated_drained :: "'a pool \<Rightarrow> bool" where
  "terminated_drained s \<longleftrightarrow>
     ((\<exists>i<length (workers s). workers s ! i = Terminated) \<longrightarrow> stop s \<and> tasks s = [])"

definition owner_ok :: "'a pool \<Rightarrow> bool" where
  "owner_ok s \<longleftrightarrow>
     (stop s \<longleftrightarrow> owner s \<noteq> Alive) \<and>
     (case owner s of
        Joining k \<Rightarrow> k \<le> length (workers s) \<and> (\<forall>i<k. workers s ! i = Terminated)
      | Returned \<Rightarrow> (\<forall>i<length (workers s). workers s ! i = Terminated)
      | _ \<Rightarrow> True)"

definition no_crash :: "'a pool \<Rightarrow> bool" where
  "no_crash s \<longleftrightarrow> (\<forall>i<length (workers s). workers s ! i \<noteq> Crashed)"

definition results_ok :: "'a pool \<Rightarrow> bool" where
  "results_ok s \<longleftrightarrow>
     (\<forall>t<length (packaged s).
        result (packaged s ! t) = Pending \<or>
        result (packaged s ! t) = settle (callable (packaged s ! t)))"

fun active :: "worker \<Rightarrow> bool" where
  "active Ready = True"
| "active (Running t) = True"
| "active _ = False"

text \<open>No wake-up is lost: a task in the queue has a worker on its way or a signal due.\<close>

definition signal_due :: "'a pool \<Rightarrow> bool" where
  "signal_due s \<longleftrightarrow>
     (tasks s \<noteq> [] \<longrightarrow>
        workers s = [] \<or> 0 < notifying s \<or> (\<exists>i<length (workers s). active (workers s ! i)))"

definition pool_inv :: "'a pool \<Rightarrow> bool" where
  "pool_inv s \<longleftrightarrow>
     queue_sorted s \<and> queue_pending s \<and> held_pending s \<and>
     unique_holders (workers s) \<and> pending_owned s \<and>
     terminated_drained s \<and> owner_ok s \<and> no_crash s \<and> results_ok s \<and> signal_due s"

section \<open>Reachable states\<close>

subsection \<open>Case analysis of a step\<close>

lemma waiting_mem: "w \<in> set (waiting s) \<longleftrightarrow> w < length (workers s) \<and> workers s ! w = Waiting"
  by (auto simp: waiting_def)

lemma waiting_Nil: "waiting s = [] \<longleftrightarrow> Waiting \<notin> set (workers s)"
  by (auto simp: waiting_def filter_empty_conv in_set_conv_nth)

lemma notify_one_cases:
  obtains (none) "Waiting \<notin> set (workers s)" "notify_one k s = s"
  | (woken) w where "w < length (workers s)" "workers s ! w = Waiting"
      "notify_one k s = s\<lparr>workers := (workers s)[w := Ready]\<rparr>"
proof (cases "waiting s")
  case Nil
  then show ?thesis by (intro none) (simp_all add: notify_one_def waiting_Nil [symmetric])
next
  case (Cons w ws)
  let ?x = "(w # ws) ! (k mod length (w # ws))"
  have "?x \<in> set (waiting s)" unfolding Cons by (rule nth_mem) simp
  then have "?x < length (workers s)" "workers s ! ?x = Waiting" by (simp_all add: waiting_mem)
  then show ?thesis using woken [of ?x] Cons by (simp add: notify_one_def)
qed

lemma fire_cases [case_names stutter push notify notify_none wake block exit pop exec crash dstop dnotify djoin dreturn]:
  obtains
    (stutter) "fire e s = s"
  | (push) c where "e = Push c" "\<not> stop s"
      "fire e s = s\<lparr>tasks := tasks s @ [length (packaged s)],
                     packaged := packaged s @ [\<lparr>callable = c, result = Pending\<rparr>],
                     notifying := Suc (notifying s)\<rparr>"
  | (notify) k w where "e = Notify k" "0 < notifying s" "w < length (workers s)"
      "workers s ! w = Waiting"
      "fire e s = s\<lparr>workers := (workers s)[w := Ready], notifying := notifying s - 1\<rparr>"
  | (notify_none) k where "e = Notify k" "0 < notifying s" "Waiting \<notin> set (workers s)"
      "fire e s = s\<lparr>notifying := notifying s - 1\<rparr>"
  | (wake) i where "e = Wake i" "i < length (workers s)" "workers s ! i = Waiting"
      "fire e s = s\<lparr>workers := (workers s)[i := Ready]\<rparr>"
  | (block) i where "e = Work i" "i < length (workers s)" "workers s ! i = Ready"
      "\<not> stop s" "tasks s = []"
      "fire e s = s\<lparr>workers := (workers s)[i := Waiting]\<rparr>"
  | (exit) i where "e = Work i" "i < length (workers s)" "workers s ! i = Ready"
      "stop s" "tasks s = []"
      "fire e s = s\<lparr>workers := (workers s)[i := Terminated]\<rparr>"
  | (pop) i t ts where "e = Work i" "i < length (workers s)" "workers s ! i = Ready"
      "tasks s = t # ts"
      "fire e s = s\<lparr>workers := (workers s)[i := Running t], tasks := ts\<rparr>"
  | (exec) i t where "e = Work i" "i < length (workers s)" "workers s ! i = Running t"
      "t < length (packaged s)" "result (packaged s ! t) = Pending"
      "fire e s = s\<lparr>workers := (workers s)[i := Ready],
                     packaged := (packaged s)[t := (packaged s ! t)
                       \<lparr>result := settle (callable (packaged s ! t))\<rparr>]\<rparr>"
  | (crash) i t where "e = Work i" "i < length (workers s)" "workers s ! i = Running t"
      "\<not> (t < length (packaged s) \<and> result (packaged s ! t) = Pending)"
      "fire e s = s\<lparr>workers := (workers s)[i := Crashed]\<rparr>"
  | (dstop) "e = Dtor" "owner s = Alive" "fire e s = s\<lparr>stop := True, owner := Stopped\<rparr>"
  | (dnotify) "e = Dtor" "owner s = Stopped"
      "fire e s = s\<lparr>workers := map (\<lambda>w. if w = Waiting then Ready else w) (workers s),
                     owner := Joining 0\<rparr>"
  | (djoin) k where "e = Dtor" "owner s = Joining k" "k < length (workers s)"
      "workers s ! k = Terminated" "fire e s = s\<lparr>owner := Joining (Suc k)\<rparr>"
  | (dreturn) k where "e = Dtor" "owner s = Joining k" "\<not> k < length (workers s)"
      "fire e s = s\<lparr>owner := Returned\<rparr>"
proof (cases e)
  case (Push c)
  then show ?thesis using stutter push [of c]
    by (cases "stop s") (simp_all add: enqueue_push_def Let_def)
next
  case (Notify k)
  show ?thesis
  proof (cases "0 < notifying s")
    case True
    then show ?thesis using Notify notify [of k] notify_none [of k]
      by (cases rule: notify_one_cases [of s k]) simp_all
  next
    case False
    then show ?thesis using Notify stutter by simp
  qed
next
  case (Wake i)
  show ?thesis
  proof (cases "i < length (workers s) \<and> workers s ! i = Waiting")
    case True
    then show ?thesis using Wake by (intro wake [of i]) (simp_all add: set_worker_def)
  next
    case False
    then show ?thesis using Wake by (intro stutter) auto
  qed
next
  case (Work i)
  show ?thesis
  proof (cases "i < length (workers s)")
    case False
    then show ?thesis using Work stutter by (simp add: worker_step_def)
  next
    case True
    show ?thesis
    proof (cases "workers s ! i")
      case Ready
      show ?thesis
      proof (cases "tasks s")
        case Nil
        then show ?thesis using Work True Ready block [of i] exit [of i]
          by (cases "stop s") (simp_all add: worker_step_def worker_fetch_def set_worker_def)
      next
        case (Cons t ts)
        then show ?thesis using Work True Ready pop [of i t ts]
          by (simp add: worker_step_def worker_fetch_def set_worker_def)
      qed
    next
      case (Running t)
      show ?thesis
      proof (cases "t < length (packaged s) \<and> result (packaged s ! t) = Pending")
        case True
        then show ?thesis using Work \<open>i < length (workers s)\<close> Running exec [of i t]
          by (simp add: worker_step_def invoke_def set_worker_def)
      next
        case False
        then show ?thesis using Work True Running crash [of i t]
          by (auto simp: worker_step_def invoke_def set_worker_def split: outcome.splits)
      qed
    qed (use Work True stutter in \<open>simp_all add: worker_step_def\<close>)
  qed
next
  case Dtor
  show ?thesis
  proof (cases "owner s")
    case Alive
    then show ?thesis using Dtor dstop by (simp add: dtor_step_def)
  next
    case Stopped
    then show ?thesis using Dtor dnotify by (simp add: dtor_step_def notify_all_def)
  next
    case (Joining k)
    consider "k < length (workers s)" "workers s ! k = Terminated"
      | "k < length (workers s)" "workers s ! k \<noteq> Terminated"
      | "\<not> k < length (workers s)" by blast
    then show ?thesis
    proof cases
      case 1
      then show ?thesis using Dtor Joining by (intro djoin [of k]) (simp_all add: dtor_step_def)
    next
      case 2
      then show ?thesis using Dtor Joining by (intro stutter) (simp add: dtor_step_def)
    next
      case 3
      then show ?thesis using Dtor Joining by (intro dreturn [of k]) (simp_all add: dtor_step_def)
    qed
  next
    case Returned
    then show ?thesis using Dtor stutter by (simp add: dtor_step_def)
  qed
qed

lemmas inv_defs = queue_sorted_def queue_pending_def held_pending_def pending_owned_def unique_holders_def
  terminated_drained_def owner_ok_def no_crash_def results_ok_def signal_due_def
  pending_def held_def

lemma inv_init: "pool_inv (ThreadPool n)"
  by (auto simp: pool_inv_def inv_defs ThreadPool_def)

lemma queue_sorted_fire: "pool_inv s \<Longrightarrow> queue_sorted (fire e s)"
  by (cases rule: fire_cases [of e s])
    (auto simp: pool_inv_def queue_sorted_def sorted_wrt_append less_Suc_eq)

lemma held_pending_iff:
  "held_pending s \<longleftrightarrow> (\<forall>t. held (workers s) t \<longrightarrow> pending (packaged s) t)"
  by (fastforce simp: held_pending_def held_def split: worker.splits)

lemma heldI: "i < length ws \<Longrightarrow> ws ! i = Running t \<Longrightarrow> held ws t"
  by (auto simp: held_def)

lemma held_pendingD: "held_pending s \<Longrightarrow> held (workers s) t \<Longrightarrow> pending (packaged s) t"
  by (simp add: held_pending_iff)

lemma running_pending:
  "pool_inv s \<Longrightarrow> i < length (workers s) \<Longrightarrow> workers s ! i = Running t \<Longrightarrow>
   t < length (packaged s) \<and> result (packaged s ! t) = Pending"
  using held_pendingD [of s t] heldI [of i "workers s" t] by (simp add: pool_inv_def pending_def)

lemma no_crash_fire: "pool_inv s \<Longrightarrow> no_crash (fire e s)"
proof (cases rule: fire_cases [of e s])
  case (crash i t)
  assume "pool_inv s"
  from running_pending [OF this crash(2,3)] crash(4) show ?thesis by simp
qed (auto simp: pool_inv_def no_crash_def nth_list_update)

lemma results_ok_fire: "pool_inv s \<Longrightarrow> results_ok (fire e s)"
  by (cases rule: fire_cases [of e s])
    (auto simp: pool_inv_def results_ok_def nth_list_update nth_append)

lemma owner_ok_fire: "pool_inv s \<Longrightarrow> owner_ok (fire e s)"
  by (cases rule: fire_cases [of e s])
    (auto simp: pool_inv_def owner_ok_def nth_list_update less_Suc_eq split: dtor_pc.splits)

lemma terminated_drained_fire: "pool_inv s \<Longrightarrow> terminated_drained (fire e s)"
  by (cases rule: fire_cases [of e s])
    (auto simp: pool_inv_def terminated_drained_def nth_list_update split: if_splits)

subsection \<open>Holders of tasks\<close>

lemma nth_update_if: "j < length ws \<Longrightarrow> ws[i := w] ! j = (if i = j then w else ws ! j)"
  by (cases "i = j") simp_all

lemma held_update_imp: "held (ws[i := w]) u \<Longrightarrow> w = Running u \<or> held ws u"
  by (auto simp: held_def nth_update_if split: if_splits)

lemma held_update_idle:
  assumes "\<forall>t. ws ! i \<noteq> Running t" and "held ws u"
  shows "held (ws[i := w]) u"
proof -
  from assms(2) obtain j where j: "j < length ws" "ws ! j = Running u"
    by (auto simp: held_def)
  with assms(1) have "j \<noteq> i" by auto
  with j have "j < length (ws[i := w])" "ws[i := w] ! j = Running u" by simp_all
  then show ?thesis by (rule heldI)
qed

lemma held_notify_all:
  "held (map (\<lambda>w. if w = Waiting then Ready else w) ws) t = held ws t"
  by (auto simp: held_def split: if_splits)

lemma pending_push:
  "pending (ps @ [\<lparr>callable = c, result = Pending\<rparr>]) t \<longleftrightarrow> pending ps t \<or> t = length ps"
  by (auto simp: pending_def nth_append)

lemma settle_not_Pending [simp]: "settle c \<noteq> Pending"
  by (simp add: settle_def split: sum.splits)

lemma pending_settle:
  "pending ps u \<Longrightarrow>
   pending (ps[u := (ps ! u)\<lparr>result := settle c\<rparr>]) t \<longleftrightarrow> pending ps t \<and> t \<noteq> u"
  by (auto simp: pending_def nth_list_update)

lemma unique_holdersD:
  "unique_holders ws \<Longrightarrow> i < length ws \<Longrightarrow> j < length ws \<Longrightarrow>
   ws ! i = Running t \<Longrightarrow> ws ! j = Running t \<Longrightarrow> i = j"
  unfolding unique_holders_def by (drule spec [of _ i], drule mp, assumption, drule spec [of _ j]) simp

lemma unique_holdersI:
  assumes "\<And>i j t. i < length ws \<Longrightarrow> j < length ws \<Longrightarrow> ws ! i = Running t \<Longrightarrow>
    ws ! j = Running t \<Longrightarrow> i = j"
  shows "unique_holders ws"
  unfolding unique_holders_def
proof (intro allI impI)
  fix i j assume "i < length ws" "j < length ws" "ws ! i = ws ! j"
  then show "case ws ! i of Running t \<Rightarrow> i = j | _ \<Rightarrow> True"
    using assms [of i j] by (cases "ws ! j") simp_all
qed

lemma unique_update:
  assumes u: "unique_holders ws" and w: "\<And>t. w = Running t \<Longrightarrow> \<not> held ws t"
  shows "unique_holders (ws[i := w])"
proof (rule unique_holdersI)
  fix a b t
  assume a: "a < length (ws[i := w])" and b: "b < length (ws[i := w])"
    and ra: "ws[i := w] ! a = Running t" and rb: "ws[i := w] ! b = Running t"
  show "a = b"
  proof (cases "a = i")
    case True
    with a ra have wr: "w = Running t" by simp
    show ?thesis
    proof (rule ccontr)
      assume "a \<noteq> b"
      with True rb b have "ws ! b = Running t" "b < length ws" by simp_all
      then have "held ws t" by (rule_tac heldI)
      with w [OF wr] show False by simp
    qed
  next
    case False
    with ra a have ra': "ws ! a = Running t" "a < length ws" by simp_all
    show ?thesis
    proof (cases "b = i")
      case True
      with b rb have "w = Running t" by simp
      with w ra' show ?thesis using heldI [of a ws t] by blast
    next
      case False
      with rb b have "ws ! b = Running t" "b < length ws" by simp_all
      with ra' u show ?thesis by (blast intro: unique_holdersD)
    qed
  qed
qed

lemma unique_update_idle:
  "unique_holders ws \<Longrightarrow> \<forall>t. w \<noteq> Running t \<Longrightarrow> unique_holders (ws[i := w])"
  by (rule unique_update) simp_all

lemma unique_notify_all:
  assumes "unique_holders ws"
  shows "unique_holders (map (\<lambda>w. if w = Waiting then Ready else w) ws)"
proof (rule unique_holdersI)
  fix a b t
  let ?ws = "map (\<lambda>w. if w = Waiting then Ready else w) ws"
  assume "a < length ?ws" "b < length ?ws" "?ws ! a = Running t" "?ws ! b = Running t"
  then have "a < length ws" "b < length ws" "ws ! a = Running t" "ws ! b = Running t"
    by (simp_all split: if_splits)
  with assms show "a = b" by (blast intro: unique_holdersD)
qed

lemma unique_holders_fire: assumes "pool_inv s" shows "unique_holders (workers (fire e s))"
proof -
  from assms have u: "unique_holders (workers s)" and qp: "queue_pending s"
    by (simp_all add: pool_inv_def)
  show ?thesis
  proof (cases rule: fire_cases [of e s])
    case (pop i t ts)
    have "\<not> held (workers s) t" using qp pop(4) by (simp add: queue_pending_def)
    then show ?thesis unfolding pop(5) using u unique_update [of "workers s" "Running t" i] by simp
  next
    case dnotify
    then show ?thesis using u by (simp add: unique_notify_all)
  qed (use u in \<open>simp_all add: unique_update_idle\<close>)
qed

subsection \<open>Preservation of the invariants\<close>

lemma held_update_other:
  assumes "held ws u" "ws ! i \<noteq> Running u"
  shows "held (ws[i := w]) u"
proof -
  from assms(1) obtain j where j: "j < length ws" "ws ! j = Running u"
    by (auto simp: held_def)
  with assms(2) have "j \<noteq> i" by auto
  with j have "j < length (ws[i := w])" "ws[i := w] ! j = Running u" by simp_all
  then show ?thesis by (rule heldI)
qed

lemma held_update_rest:
  assumes "held (ws[i := w]) u" "w \<noteq> Running u"
  shows "\<exists>j<length ws. j \<noteq> i \<and> ws ! j = Running u"
proof -
  from assms(1) obtain j where j: "j < length ws" "ws[i := w] ! j = Running u"
    by (auto simp: held_def)
  with assms(2) have "j \<noteq> i" by (auto simp: nth_update_if split: if_splits)
  with j show ?thesis by auto
qed

lemma queue_pending_fire: assumes "pool_inv s" shows "queue_pending (fire e s)"
proof -
  from assms have qs: "queue_sorted s" and qp: "queue_pending s" and hp: "held_pending s"
    by (simp_all add: pool_inv_def)
  show ?thesis
  proof (cases rule: fire_cases [of e s])
    case stutter
    then show ?thesis using qp by simp
  next
    case (push c)
    have "\<not> held (workers s) (length (packaged s))"
      using held_pendingD [OF hp, of "length (packaged s)"] by (auto simp: pending_def)
    then show ?thesis using qp unfolding push(3)
      by (auto simp: queue_pending_def pending_push)
  next
    case (notify k w)
    then show ?thesis using qp
      by (auto simp: queue_pending_def dest: held_update_imp)
  next
    case (notify_none k)
    then show ?thesis using qp
      by (simp add: queue_pending_def)
  next
    case (wake i)
    then show ?thesis using qp
      by (auto simp: queue_pending_def dest: held_update_imp)
  next
    case (block i)
    then show ?thesis by (simp add: queue_pending_def)
  next
    case (exit i)
    then show ?thesis by (simp add: queue_pending_def)
  next
    case (pop i t ts)
    have "t \<notin> set ts" using qs pop(4) by (auto simp: queue_sorted_def)
    then show ?thesis using qp pop(2,3,4) unfolding pop(5)
      by (auto simp: queue_pending_def dest: held_update_imp)
  next
    case (exec i t)
    have ht: "held (workers s) t" using exec(2,3) by (rule heldI)
    have pt: "pending (packaged s) t" using exec by (simp add: pending_def)
    show ?thesis using qp exec(2,3) ht unfolding exec(6)
      by (auto simp: queue_pending_def pending_settle [OF pt] dest: held_update_imp)
  next
    case (crash i t)
    from running_pending [OF assms crash(2,3)] crash(4) show ?thesis by simp
  next
    case dstop
    then show ?thesis using qp
      by (simp add: queue_pending_def)
  next
    case dnotify
    then show ?thesis using qp
      by (simp add: queue_pending_def held_notify_all)
  next
    case (djoin k)
    then show ?thesis using qp
      by (simp add: queue_pending_def)
  next
    case (dreturn k)
    then show ?thesis using qp
      by (simp add: queue_pending_def)
  qed
qed

lemma held_pending_fire: assumes "pool_inv s" shows "held_pending (fire e s)"
proof -
  from assms have qp: "queue_pending s" and hp: "held_pending s"
    and u: "unique_holders (workers s)"
    by (simp_all add: pool_inv_def)
  note hpD = held_pendingD [OF hp]
  show ?thesis
  proof (cases rule: fire_cases [of e s])
    case stutter
    then show ?thesis using hp by simp
  next
    case (push c)
    show ?thesis using hpD unfolding push(3)
      by (simp add: held_pending_iff pending_push)
  next
    case (notify k w)
    show ?thesis using hpD unfolding notify(5)
      by (auto simp: held_pending_iff dest: held_update_imp)
  next
    case (notify_none k)
    then show ?thesis using hp
      by (simp add: held_pending_iff)
  next
    case (wake i)
    show ?thesis using hpD unfolding wake(4)
      by (auto simp: held_pending_iff dest: held_update_imp)
  next
    case (block i)
    show ?thesis using hpD unfolding block(6)
      by (auto simp: held_pending_iff dest: held_update_imp)
  next
    case (exit i)
    show ?thesis using hpD unfolding exit(6)
      by (auto simp: held_pending_iff dest: held_update_imp)
  next
    case (pop i t ts)
    have "pending (packaged s) t"
      using qp pop(4) by (auto simp: queue_pending_def)
    then show ?thesis using hpD unfolding pop(5)
      by (auto simp: held_pending_iff dest: held_update_imp)
  next
    case (exec i t)
    have pt: "pending (packaged s) t" using exec by (simp add: pending_def)
    have "pending (packaged s) x \<and> x \<noteq> t" if "held ((workers s)[i := Ready]) x" for x
    proof -
      from held_update_rest [OF that] obtain j
        where j: "j < length (workers s)" "j \<noteq> i" "workers s ! j = Running x" by auto
      then have "held (workers s) x" by (auto intro: heldI)
      moreover have "x \<noteq> t" using unique_holdersD [OF u j(1) exec(2) j(3)] j(2) exec(3) by auto
      ultimately show ?thesis using hpD by simp
    qed
    then show ?thesis unfolding exec(6)
      by (simp add: held_pending_iff pending_settle [OF pt])
  next
    case (crash i t)
    from running_pending [OF assms crash(2,3)] crash(4) show ?thesis by simp
  next
    case dstop
    then show ?thesis using hp
      by (simp add: held_pending_iff)
  next
    case dnotify
    then show ?thesis using hp
      by (simp add: held_pending_iff held_notify_all)
  next
    case (djoin k)
    then show ?thesis using hp
      by (simp add: held_pending_iff)
  next
    case (dreturn k)
    then show ?thesis using hp
      by (simp add: held_pending_iff)
  qed
qed

lemma pending_owned_fire: assumes "pool_inv s" shows "pending_owned (fire e s)"
proof -
  from assms have po: "pending_owned s"
    by (simp_all add: pool_inv_def)
  have poD: "t \<in> set (tasks s) \<or> held (workers s) t" if "pending (packaged s) t" for t
    using po that by (auto simp: pending_owned_def pending_def)
  have idle: "pending_owned (s'\<lparr>workers := (workers s)[i := w]\<rparr>)"
    if "tasks s' = tasks s" "packaged s' = packaged s" "\<forall>t. workers s ! i \<noteq> Running t" for s' :: "'a pool" and i w
    using poD that by (auto simp: pending_owned_def intro: held_update_idle)
  show ?thesis
  proof (cases rule: fire_cases [of e s])
    case stutter
    then show ?thesis using po by simp
  next
    case (push c)
    show ?thesis using poD unfolding push(3)
      by (auto simp: pending_owned_def pending_push)
  next
    case (notify k w)
    show ?thesis using idle [of "s\<lparr>notifying := notifying s - 1\<rparr>" w Ready] notify(4) unfolding notify(5)
      by (simp add: pending_owned_def)
  next
    case (notify_none k)
    then show ?thesis using po
      by (simp add: pending_owned_def)
  next
    case (wake i)
    show ?thesis using idle [of s i Ready] wake(3) unfolding wake(4) by simp
  next
    case (block i)
    show ?thesis using idle [of s i Waiting] block(3) unfolding block(6) by simp
  next
    case (exit i)
    show ?thesis using idle [of s i Terminated] exit(3) unfolding exit(6) by simp
  next
    case (pop i t ts)
    have "x \<in> set ts \<or> held ((workers s)[i := Running t]) x" if "pending (packaged s) x" for x
    proof -
      from poD [OF that] pop(4) consider "x = t" | "x \<in> set ts" | "held (workers s) x" by auto
      then show ?thesis
      proof cases
        case 1
        have "held ((workers s)[i := Running t]) t" using pop(2) by (intro heldI [of i]) simp_all
        with 1 show ?thesis by simp
      next
        case 2
        then show ?thesis by simp
      next
        case 3
        then show ?thesis using pop(3) by (auto intro: held_update_other)
      qed
    qed
    then show ?thesis unfolding pop(5)
      by (simp add: pending_owned_def)
  next
    case (exec i t)
    have pt: "pending (packaged s) t" using exec by (simp add: pending_def)
    have "x \<in> set (tasks s) \<or> held ((workers s)[i := Ready]) x"
      if "pending (packaged s) x" "x \<noteq> t" for x
      using poD [OF that(1)] that(2) exec(3) by (auto intro: held_update_other)
    then show ?thesis unfolding exec(6)
      by (simp add: pending_owned_def pending_settle [OF pt])
  next
    case (crash i t)
    from running_pending [OF assms crash(2,3)] crash(4) show ?thesis by simp
  next
    case dstop
    then show ?thesis using po
      by (simp add: pending_owned_def)
  next
    case dnotify
    then show ?thesis using po
      by (simp add: pending_owned_def held_notify_all)
  next
    case (djoin k)
    then show ?thesis using po
      by (simp add: pending_owned_def)
  next
    case (dreturn k)
    then show ?thesis using po
      by (simp add: pending_owned_def)
  qed
qed

lemma active_updateI:
  "i < length ws \<Longrightarrow> active w \<Longrightarrow> \<exists>j<length (ws[i := w]). active (ws[i := w] ! j)"
  by (rule exI [of _ i]) simp

lemma signal_due_fire: assumes "pool_inv s" shows "signal_due (fire e s)"
proof -
  from assms have sd: "signal_due s" and td: "terminated_drained s" and nc: "no_crash s"
    by (simp_all add: pool_inv_def)
  show ?thesis
  proof (cases rule: fire_cases [of e s])
    case stutter
    then show ?thesis using sd by simp
  next
    case (push c)
    show ?thesis unfolding push(3) by (simp add: signal_due_def)
  next
    case (notify k w)
    show ?thesis unfolding notify(5) using active_updateI [OF notify(3), of Ready]
      by (simp add: signal_due_def)
  next
    case (notify_none k)
    have "\<exists>i<length (workers s). active (workers s ! i)"
      if "tasks s \<noteq> []" "workers s \<noteq> []"
    proof -
      let ?w = "workers s ! 0"
      have 0: "0 < length (workers s)" using that(2) by simp
      then have "?w \<in> set (workers s)" by simp
      with notify_none(3) have "?w \<noteq> Waiting" by metis
      moreover have "?w \<noteq> Terminated" using td that(1) 0 by (auto simp: terminated_drained_def)
      moreover have "?w \<noteq> Crashed" using nc 0 by (auto simp: no_crash_def)
      ultimately have "active ?w" by (cases ?w) simp_all
      with 0 show ?thesis by blast
    qed
    then show ?thesis unfolding notify_none(4) by (auto simp: signal_due_def)
  next
    case (wake i)
    show ?thesis unfolding wake(4) using active_updateI [OF wake(2), of Ready]
      by (simp add: signal_due_def)
  next
    case (block i)
    then show ?thesis by (simp add: signal_due_def)
  next
    case (exit i)
    then show ?thesis by (simp add: signal_due_def)
  next
    case (pop i t ts)
    show ?thesis unfolding pop(5) using active_updateI [OF pop(2), of "Running t"]
      by (simp add: signal_due_def)
  next
    case (exec i t)
    show ?thesis unfolding exec(6) using active_updateI [OF exec(2), of Ready]
      by (simp add: signal_due_def)
  next
    case (crash i t)
    from running_pending [OF assms crash(2,3)] crash(4) show ?thesis by simp
  next
    case dstop
    then show ?thesis using sd
      by (simp add: signal_due_def)
  next
    case dnotify
    have "\<exists>i<length (workers s). active (if workers s ! i = Waiting then Ready else workers s ! i)"
      if "\<exists>i<length (workers s). active (workers s ! i)"
      using that by auto
    then show ?thesis using sd unfolding dnotify(3)
      by (auto simp: signal_due_def)
  next
    case (djoin k)
    then show ?thesis using sd
      by (simp add: signal_due_def)
  next
    case (dreturn k)
    then show ?thesis using sd
      by (simp add: signal_due_def)
  qed
qed

lemma inv_fire: "pool_inv s \<Longrightarrow> pool_inv (fire e s)"
  using queue_sorted_fire [of s e] queue_pending_fire [of s e] held_pending_fire [of s e]
    unique_holders_fire [of s e] pending_owned_fire [of s e] terminated_drained_fire [of s e]
    owner_ok_fire [of s e] no_crash_fire [of s e] results_ok_fire [of s e] signal_due_fire [of s e]
  by (simp add: pool_inv_def)

lemma inv_run: "pool_inv s \<Longrightarrow> pool_inv (run es s)"
  by (induction es arbitrary: s) (simp_all add: inv_fire)

lemma inv_reachable: "pool_inv (run es (ThreadPool n))"
  by (rule inv_run) (rule inv_init)

subsection \<open>Progress of the backlog\<close>

lemma length_workers_fire [simp]: "length (workers (fire e s)) = length (workers s)"
  by (cases rule: fire_cases [of e s]) simp_all

lemma length_workers_run [simp]: "length (workers (run es s)) = length (workers s)"
  by (induction es arbitrary: s) simp_all

lemma length_workers_init [simp]: "length (workers (ThreadPool n)) = n"
  by (simp add: ThreadPool_def)

lemma run_append: "run (es @ es') s = run es' (run es s)"
  by (induction es arbitrary: s) simp_all

lemma count_settle:
  "t < length ps \<Longrightarrow> result (ps ! t) = Pending \<Longrightarrow>
   Suc (length (filter (\<lambda>p. result p = Pending) (ps[t := (ps ! t)\<lparr>result := settle c\<rparr>])))
     = length (filter (\<lambda>p. result p = Pending) ps)"
proof (induction ps arbitrary: t)
  case Nil
  then show ?case by simp
next
  case (Cons p ps)
  then show ?case by (cases t) simp_all
qed

lemma backlog_fire:
  assumes "pool_inv s" "\<not> is_push e"
  shows "backlog (fire e s) \<le> backlog s"
proof (cases rule: fire_cases [of e s])
  case (exec i t)
  show ?thesis unfolding exec(6) using count_settle [OF exec(4,5), of "callable (packaged s ! t)"]
    by (simp add: backlog_def) 
next
  case (push c)
  with assms(2) show ?thesis by simp
qed (simp_all add: backlog_def)

lemma backlog_run:
  "pool_inv s \<Longrightarrow> \<not> list_ex is_push r \<Longrightarrow> backlog (run r s) \<le> backlog s"
proof (induction r arbitrary: s)
  case Nil
  then show ?case by simp
next
  case (Cons e r)
  have "backlog (run r (fire e s)) \<le> backlog (fire e s)"
    using Cons by (simp add: inv_fire)
  also have "\<dots> \<le> backlog s" using Cons.prems by (simp add: backlog_fire)
  finally show ?case by simp
qed

lemma progress_step:
  assumes "pool_inv s" "will_progress s i"
  shows "backlog (fire (Work i) s) < backlog s"
proof (cases "workers s ! i")
  case Ready
  with assms(2) show ?thesis
    by (simp add: will_progress_def worker_step_def worker_fetch_def set_worker_def backlog_def)
next
  case (Running t)
  from assms(2) have i: "i < length (workers s)" by (simp add: will_progress_def)
  from running_pending [OF assms(1) i Running]
  have t: "t < length (packaged s)" "result (packaged s ! t) = Pending" by simp_all
  show ?thesis using i Running t count_settle [OF t, of "callable (packaged s ! t)"]
    by (simp add: worker_step_def invoke_def set_worker_def backlog_def)
qed (use assms(2) in \<open>simp_all add: will_progress_def\<close>)

lemma will_progress_keep:
  assumes "pool_inv s" "will_progress s i" "\<not> is_push e"
  shows "backlog (fire e s) < backlog s \<or> will_progress (fire e s) i"
proof (cases rule: fire_cases [of e s])
  case stutter
  then show ?thesis using assms(2) by simp
next
  case (push c)
  with assms(3) show ?thesis by simp
next
  case (pop j t ts)
  then show ?thesis by (simp add: backlog_def)
next
  case (exec j t)
  show ?thesis unfolding exec(6) using count_settle [OF exec(4,5), of "callable (packaged s ! t)"]
    by (simp add: backlog_def less_Suc_eq_le [symmetric])
next
  case (crash j t)
  from running_pending [OF assms(1) crash(2,3)] crash(4) show ?thesis by simp
next
  case dnotify
  then show ?thesis using assms(2) by (auto simp: will_progress_def split: worker.splits)
qed (use assms(2) in \<open>auto simp: will_progress_def nth_update_if split: worker.splits\<close>)

subsection \<open>Fair rounds drain the backlog\<close>

lemma is_work_iff: "is_work i e \<longleftrightarrow> e = Work i"
  by (cases e) auto

lemma will_progress_run:
  assumes "pool_inv s" "will_progress s i" "\<not> list_ex is_push r"
  shows "backlog (run r s) < backlog s \<or> will_progress (run r s) i"
  using assms
proof (induction r arbitrary: s)
  case Nil
  then show ?case by simp
next
  case (Cons e r)
  from Cons.prems have np: "\<not> is_push e" "\<not> list_ex is_push r" by simp_all
  have inv': "pool_inv (fire e s)" using Cons.prems(1) by (rule inv_fire)
  from will_progress_keep [OF Cons.prems(1,2) np(1)] show ?case
  proof
    assume "backlog (fire e s) < backlog s"
    with backlog_run [OF inv' np(2)] show ?thesis by simp
  next
    assume "will_progress (fire e s) i"
    from Cons.IH [OF inv' this np(2)] backlog_fire [OF Cons.prems(1) np(1)]
    show ?thesis by auto
  qed
qed

lemma progress_round:
  assumes "pool_inv s" "will_progress s i" "\<not> list_ex is_push r" "list_ex (is_work i) r"
  shows "backlog (run r s) < backlog s"
  using assms
proof (induction r arbitrary: s)
  case Nil
  then show ?case by simp
next
  case (Cons e r)
  from Cons.prems have np: "\<not> is_push e" "\<not> list_ex is_push r" by simp_all
  have inv': "pool_inv (fire e s)" using Cons.prems(1) by (rule inv_fire)
  have le: "backlog (run r (fire e s)) \<le> backlog (fire e s)" by (rule backlog_run [OF inv' np(2)])
  show ?case
  proof (cases "e = Work i")
    case True
    with progress_step [OF Cons.prems(1,2)] le show ?thesis by simp
  next
    case False
    then have "\<not> is_work i e" by (simp add: is_work_iff)
    with Cons.prems(4) have w: "list_ex (is_work i) r" by simp
    from will_progress_keep [OF Cons.prems(1,2) np(1)] show ?thesis
    proof
      assume "backlog (fire e s) < backlog s"
      with le show ?thesis by simp
    next
      assume "will_progress (fire e s) i"
      from Cons.IH [OF inv' this np(2) w] backlog_fire [OF Cons.prems(1) np(1)]
      show ?thesis by simp
    qed
  qed
qed

text \<open>When nobody is about to progress although a task is queued, all workers wait and a signal is due.\<close>

lemma stuck_waiting:
  assumes "pool_inv s" "tasks s \<noteq> []" "workers s \<noteq> []" "\<forall>i. \<not> will_progress s i"
  shows "0 < notifying s \<and> (\<forall>i<length (workers s). workers s ! i = Waiting)"
proof -
  from assms(1) have sd: "signal_due s" and td: "terminated_drained s" and nc: "no_crash s"
    by (simp_all add: pool_inv_def)
  have na: "\<not> active (workers s ! i)" if "i < length (workers s)" for i
    using assms(2,4) that by (cases "workers s ! i") (auto simp: will_progress_def)
  with sd assms(2,3) have "0 < notifying s" by (auto simp: signal_due_def)
  moreover have "workers s ! i = Waiting" if "i < length (workers s)" for i
    using na [OF that] td nc assms(2) that
    by (cases "workers s ! i") (auto simp: terminated_drained_def no_crash_def)
  ultimately show ?thesis by simp
qed

lemma tasks_keep:
  assumes "pool_inv s" "tasks s \<noteq> []" "\<not> is_push e"
  shows "backlog (fire e s) < backlog s \<or> tasks (fire e s) \<noteq> []"
proof (cases rule: fire_cases [of e s])
  case (pop i t ts)
  then show ?thesis by (simp add: backlog_def)
qed (use assms(2) in simp_all)

lemma notify_unsticks:
  assumes "pool_inv s" "tasks s \<noteq> []" "workers s \<noteq> []" "\<forall>i. \<not> will_progress s i"
  shows "\<exists>i. will_progress (fire (Notify k) s) i"
proof -
  from stuck_waiting [OF assms]
  have n: "0 < notifying s" and w: "\<forall>i<length (workers s). workers s ! i = Waiting" by simp_all
  from assms(3) w have "Waiting \<in> set (workers s)"
    by (metis length_greater_0_conv nth_mem)
  then show ?thesis
  proof (cases rule: notify_one_cases [of s k])
    case none
    with \<open>Waiting \<in> set (workers s)\<close> show ?thesis by simp
  next
    case (woken j)
    have "will_progress (fire (Notify k) s) j"
      using n woken(1) assms(2) by (simp add: woken(3) will_progress_def)
    then show ?thesis ..
  qed
qed

lemma unstick_round:
  assumes "pool_inv s" "tasks s \<noteq> []" "workers s \<noteq> []"
    "\<not> list_ex is_push r" "list_ex is_notify r"
  shows "backlog (run r s) < backlog s \<or> (\<exists>i. will_progress (run r s) i)"
  using assms
proof (induction r arbitrary: s)
  case Nil
  then show ?case by simp
next
  case (Cons e r)
  from Cons.prems have np: "\<not> is_push e" "\<not> list_ex is_push r" by simp_all
  have inv': "pool_inv (fire e s)" using Cons.prems(1) by (rule inv_fire)
  have le: "backlog (run r (fire e s)) \<le> backlog (fire e s)" by (rule backlog_run [OF inv' np(2)])
  have le0: "backlog (fire e s) \<le> backlog s" by (rule backlog_fire [OF Cons.prems(1) np(1)])
  show ?case
  proof (cases "\<exists>i. will_progress s i")
    case True
    then obtain i where "will_progress s i" ..
    from will_progress_run [OF Cons.prems(1) this Cons.prems(4)] show ?thesis by auto
  next
    case False
    show ?thesis
    proof (cases "is_notify e")
      case True
      then obtain k where e: "e = Notify k" by (cases e) simp_all
      from notify_unsticks [OF Cons.prems(1,2,3), of k] False
      obtain i where "will_progress (fire e s) i" unfolding e by auto
      from will_progress_run [OF inv' this np(2)] le0 show ?thesis by auto
    next
      case False
      with Cons.prems(5) have nt: "list_ex is_notify r" by simp
      have ws: "workers (fire e s) \<noteq> []" using Cons.prems(3)
        by (metis length_workers_fire length_0_conv)
      from tasks_keep [OF Cons.prems(1,2) np(1)] show ?thesis
      proof
        assume "backlog (fire e s) < backlog s"
        with le show ?thesis by simp
      next
        assume "tasks (fire e s) \<noteq> []"
        from Cons.IH [OF inv' this ws np(2) nt] le0 show ?thesis by auto
      qed
    qed
  qed
qed

lemma two_rounds:
  assumes "pool_inv s" "workers s \<noteq> []" "0 < backlog s"
    "fair_round (length (workers s)) r1" "fair_round (length (workers s)) r2"
  shows "backlog (run (r1 @ r2) s) < backlog s"
proof -
  from assms(4,5) have np: "\<not> list_ex is_push r1" "\<not> list_ex is_push r2"
    and nt: "list_ex is_notify r1"
    and wk: "\<And>i. i < length (workers s) \<Longrightarrow> list_ex (is_work i) r1"
      "\<And>i. i < length (workers s) \<Longrightarrow> list_ex (is_work i) r2"
    by (simp_all add: fair_round_def)
  have inv1: "pool_inv (run r1 s)" using assms(1) by (rule inv_run)
  have le1: "backlog (run r1 s) \<le> backlog s" by (rule backlog_run [OF assms(1) np(1)])
  have le2: "backlog (run r2 (run r1 s)) \<le> backlog (run r1 s)" by (rule backlog_run [OF inv1 np(2)])
  show ?thesis
  proof (cases "\<exists>i. will_progress s i")
    case True
    then obtain i where i: "will_progress s i" ..
    then have "i < length (workers s)" by (simp add: will_progress_def)
    from progress_round [OF assms(1) i np(1) wk(1) [OF this]] le2
    show ?thesis by (simp add: run_append)
  next
    case False
    have "tasks s \<noteq> []"
    proof
      assume e: "tasks s = []"
      from assms(3) obtain p where "p \<in> set (packaged s)" "result p = Pending"
        by (auto simp: backlog_def e filter_empty_conv dest!: length_greater_0_conv [THEN iffD1])
      then obtain t where t: "t < length (packaged s)" "result (packaged s ! t) = Pending"
        by (auto simp: in_set_conv_nth)
      with assms(1) e have "held (workers s) t"
        by (auto simp: pool_inv_def pending_owned_def pending_def)
      then obtain i where "i < length (workers s)" "workers s ! i = Running t"
        by (auto simp: held_def)
      then have "will_progress s i" by (simp add: will_progress_def)
      with False show False by blast
    qed
    from unstick_round [OF assms(1) this assms(2) np(1) nt] show ?thesis
    proof
      assume "backlog (run r1 s) < backlog s"
      with le2 show ?thesis by (simp add: run_append)
    next
      assume "\<exists>i. will_progress (run r1 s) i"
      then obtain i where i: "will_progress (run r1 s) i" ..
      then have "i < length (workers s)" by (simp add: will_progress_def)
      from progress_round [OF inv1 i np(2) wk(2) [OF this]] le1
      show ?thesis by (simp add: run_append)
    qed
  qed
qed

lemma rounds_drain:
  "pool_inv s \<Longrightarrow> workers s \<noteq> [] \<Longrightarrow> list_all (fair_round (length (workers s))) rs \<Longrightarrow>
   backlog s \<le> k \<Longrightarrow> 2 * k \<le> length rs \<Longrightarrow> backlog (run (concat rs) s) = 0"
proof (induction k arbitrary: s rs)
  case 0
  have "\<not> list_ex is_push (concat rs)"
    using "0.prems"(3) by (auto simp: list_ex_iff list_all_iff fair_round_def)
  from backlog_run [OF "0.prems"(1) this] "0.prems"(4) show ?case by simp
next
  case (Suc k)
  from Suc.prems(5) obtain r1 r2 rs' where rs: "rs = r1 # r2 # rs'"
    by (cases rs; cases "tl rs") auto
  let ?s = "run (r1 @ r2) s"
  have f: "fair_round (length (workers s)) r1" "fair_round (length (workers s)) r2"
    "list_all (fair_round (length (workers ?s))) rs'"
    using Suc.prems(3) by (simp_all add: rs)
  have inv': "pool_inv ?s" using Suc.prems(1) by (rule inv_run)
  have ws: "workers ?s \<noteq> []" using Suc.prems(2) by (metis length_workers_run length_0_conv)
  have "backlog ?s \<le> k"
  proof (cases "0 < backlog s")
    case True
    from two_rounds [OF Suc.prems(1,2) True f(1,2)] Suc.prems(4) show ?thesis by simp
  next
    case False
    have "\<not> list_ex is_push (r1 @ r2)" using f(1,2) by (simp add: fair_round_def)
    from backlog_run [OF Suc.prems(1) this] False show ?thesis by simp
  qed
  from Suc.IH [OF inv' ws f(3) this] Suc.prems(5) show ?case
    by (simp add: rs run_append)
qed

subsection \<open>Stores, results and executions\<close>

lemma packaged_fire:
  assumes "t < length (packaged s)"
  shows "t < length (packaged (fire e s)) \<and>
         callable (packaged (fire e s) ! t) = callable (packaged s ! t) \<and>
         (result (packaged s ! t) \<noteq> Pending \<longrightarrow>
            result (packaged (fire e s) ! t) = result (packaged s ! t))"
proof (cases rule: fire_cases [of e s])
  case (push c)
  then show ?thesis using assms by (simp add: nth_append)
next
  case (exec i u)
  then show ?thesis using assms by (auto simp: nth_update_if)
qed (use assms in simp_all)

lemma packaged_run:
  "t < length (packaged s) \<Longrightarrow>
   t < length (packaged (run es s)) \<and>
   callable (packaged (run es s) ! t) = callable (packaged s ! t) \<and>
   (result (packaged s ! t) \<noteq> Pending \<longrightarrow>
      result (packaged (run es s) ! t) = result (packaged s ! t))"
proof (induction es arbitrary: s)
  case Nil
  then show ?case by simp
next
  case (Cons e es)
  from packaged_fire [OF Cons.prems, of e] Cons.IH [of "fire e s"] show ?case by auto
qed

lemma length_packaged_run:
  "\<not> list_ex is_push r \<Longrightarrow> length (packaged (run r s)) = length (packaged s)"
proof (induction r arbitrary: s)
  case Nil
  then show ?case by simp
next
  case (Cons e r)
  then have "\<not> is_push e" by simp
  then have "length (packaged (fire e s)) = length (packaged s)"
    by (cases rule: fire_cases [of e s]) simp_all
  with Cons show ?case by simp
qed

lemma backlog_0:
  assumes "backlog s = 0" "t < length (packaged s)"
  shows "result (packaged s ! t) \<noteq> Pending"
proof
  assume "result (packaged s ! t) = Pending"
  with assms(2) have "packaged s ! t \<in> set (filter (\<lambda>p. result p = Pending) (packaged s))"
    by simp
  with assms(1) show False by (simp add: backlog_def)
qed

lemma results_okD:
  "pool_inv s \<Longrightarrow> t < length (packaged s) \<Longrightarrow> result (packaged s ! t) \<noteq> Pending \<Longrightarrow>
   result (packaged s ! t) = settle (callable (packaged s ! t))"
  by (auto simp: pool_inv_def results_ok_def)

lemma pending_fire_back:
  "t < length (packaged s) \<Longrightarrow> pending (packaged (fire e s)) t \<Longrightarrow> pending (packaged s) t"
  using packaged_fire [of t s e] by (auto simp: pending_def)

lemma invoked_pending:
  "pool_inv s \<Longrightarrow>
   distinct (invoked es s) \<and>
   (\<forall>t\<in>set (invoked es s). t < length (packaged s) \<longrightarrow> pending (packaged s) t)"
proof (induction es arbitrary: s)
  case Nil
  then show ?case by simp
next
  case (Cons e es)
  have inv': "pool_inv (fire e s)" using Cons.prems by (rule inv_fire)
  note IH = Cons.IH [OF inv']
  have prev: "\<forall>t\<in>set (invoked es (fire e s)). t < length (packaged s) \<longrightarrow> pending (packaged s) t"
    using IH packaged_fire [of _ s e] pending_fire_back [of _ s e] by blast
  show ?case
  proof (cases "\<exists>i t. e = Work i \<and> i < length (workers s) \<and> workers s ! i = Running t")
    case True
    then obtain i t where e: "e = Work i" and i: "i < length (workers s)"
      and r: "workers s ! i = Running t" by blast
    from running_pending [OF Cons.prems i r]
    have t: "t < length (packaged s)" "result (packaged s ! t) = Pending" by simp_all
    have inv_eq: "invoked (e # es) s = t # invoked es (fire e s)" using e i r by simp
    have "\<not> pending (packaged (fire e s)) t"
      using e i r t by (simp add: worker_step_def invoke_def set_worker_def pending_def)
    moreover have "t < length (packaged (fire e s))" using packaged_fire [OF t(1)] by simp
    ultimately have "t \<notin> set (invoked es (fire e s))" using IH by blast
    with IH prev t show ?thesis unfolding inv_eq by (simp add: pending_def)
  next
    case False
    then have "invoked (e # es) s = invoked es (fire e s)"
      by (cases e) (auto split: worker.splits)
    with IH prev show ?thesis by simp
  qed
qed

lemma tasks_fire_sub:
  "set (tasks (fire e s)) \<subseteq> insert (length (packaged s)) (set (tasks s))"
  by (cases rule: fire_cases [of e s]) auto

lemma popped_queued:
  "pool_inv s \<Longrightarrow>
   distinct (popped es s) \<and>
   (\<forall>t\<in>set (popped es s). t < length (packaged s) \<longrightarrow> t \<in> set (tasks s))"
proof (induction es arbitrary: s)
  case Nil
  then show ?case by simp
next
  case (Cons e es)
  have inv': "pool_inv (fire e s)" using Cons.prems by (rule inv_fire)
  note IH = Cons.IH [OF inv']
  have prev: "\<forall>t\<in>set (popped es (fire e s)). t < length (packaged s) \<longrightarrow> t \<in> set (tasks s)"
  proof (intro ballI impI)
    fix t assume t: "t \<in> set (popped es (fire e s))" "t < length (packaged s)"
    with IH packaged_fire [of t s e] have "t \<in> set (tasks (fire e s))" by blast
    with tasks_fire_sub [of e s] t(2) show "t \<in> set (tasks s)" by auto
  qed
  show ?case
  proof (cases "\<exists>i t ts. e = Work i \<and> i < length (workers s) \<and> workers s ! i = Ready \<and> tasks s = t # ts")
    case True
    then obtain i t ts where e: "e = Work i" and i: "i < length (workers s)"
      and r: "workers s ! i = Ready" and q: "tasks s = t # ts" by blast
    have eq: "popped (e # es) s = t # popped es (fire e s)"
      using e i r q by (simp add: worker_fetch_def)
    have ts: "tasks (fire e s) = ts"
      using e i r q by (simp add: worker_step_def worker_fetch_def set_worker_def)
    from Cons.prems q have "t \<notin> set ts" "t < length (packaged s)"
      by (auto simp: pool_inv_def queue_sorted_def)
    with IH ts packaged_fire [of t s e] have "t \<notin> set (popped es (fire e s))" by auto
    with IH prev q show ?thesis unfolding eq by simp
  next
    case False
    then have "popped (e # es) s = popped es (fire e s)"
      by (cases e; cases "tasks s") (auto simp: worker_fetch_def)
    with IH prev show ?thesis by simp
  qed
qed

subsection \<open>A pool without workers\<close>

lemma no_workers_fire:
  assumes "workers s = []"
  shows "workers (fire e s) = [] \<and>
         ((\<forall>p\<in>set (packaged s). result p = Pending) \<longrightarrow>
          (\<forall>p\<in>set (packaged (fire e s)). result p = Pending))"
  using assms by (cases rule: fire_cases [of e s]) auto

lemma no_workers_run:
  "workers s = [] \<Longrightarrow> \<forall>p\<in>set (packaged s). result p = Pending \<Longrightarrow>
   workers (run es s) = [] \<and> (\<forall>p\<in>set (packaged (run es s)). result p = Pending)"
proof (induction es arbitrary: s)
  case Nil
  then show ?case by simp
next
  case (Cons e es)
  from no_workers_fire [OF Cons.prems(1), of e] Cons.prems(2) Cons.IH [of "fire e s"]
  show ?case by simp
qed

lemma no_workers_invoked: "workers s = [] \<Longrightarrow> invoked es s = []"
proof (induction es arbitrary: s)
  case Nil
  then show ?case by simp
next
  case (Cons e es)
  from no_workers_fire [OF Cons.prems, of e] have "workers (fire e s) = []" by simp
  from Cons.IH [OF this] Cons.prems show ?case by (cases e) simp_all
qed

lemma init_no_workers: "workers (ThreadPool 0) = [] \<and> packaged (ThreadPool 0) = []"
  by (simp add: ThreadPool_def)

lemma no_workers_get:
  assumes "workers s = []" "\<forall>p\<in>set (packaged s). result p = Pending"
  shows "future_get res (run es s) = None"
proof (cases "res < length (packaged (run es s))")
  case True
  then have "packaged (run es s) ! res \<in> set (packaged (run es s))" by simp
  with no_workers_run [OF assms, of es] have "result (packaged (run es s) ! res) = Pending"
    by blast
  with True show ?thesis by (simp add: future_get_def)
next
  case False
  then show ?thesis by (simp add: future_get_def)
qed

section \<open>Rejection after stop\<close>

text \<open>
  C1. A call of \<^verbatim>\<open>enqueue\<close> made while \<^verbatim>\<open>stop\<close> is true fails with the runtime error
  "enqueue on stopped ThreadPool" and leaves the pool as it was: the queue is unchanged
  and no packaged task remains in the store.
\<close>

theorem enqueue_stopped:
  "stop s \<Longrightarrow>
     enqueue k f args s = (Inl (runtime_error ''enqueue on stopped ThreadPool''), s)"
  by (simp add: enqueue_def enqueue_push_def Let_def)

theorem enqueue_stopped_witness:
  "stop (fire Dtor (ThreadPool 2 :: int pool)) \<and>
   enqueue 0 (\<lambda>i. Inr (i * i)) (3::int) (fire Dtor (ThreadPool 2))
     = (Inl (runtime_error ''enqueue on stopped ThreadPool''), fire Dtor (ThreadPool 2))"
proof -
  have h: "stop (fire Dtor (ThreadPool 2 :: int pool))"
    by (simp add: dtor_step_def ThreadPool_def)
  show ?thesis using h enqueue_stopped [OF h] by simp
qed

section \<open>Shutdown\<close>

lemma returned_drained:
  assumes "pool_inv s" "workers s \<noteq> []" "owner s = Returned"
  shows "tasks s = [] \<and> (\<forall>t<length (packaged s). result (packaged s ! t) \<noteq> Pending) \<and>
         (\<forall>i<length (workers s). workers s ! i = Terminated)"
proof -
  from assms(1,3) have allt: "\<forall>i<length (workers s). workers s ! i = Terminated"
    by (simp add: pool_inv_def owner_ok_def)
  moreover from assms(2) allt have "\<exists>i<length (workers s). workers s ! i = Terminated" by auto
  with assms(1) have e: "tasks s = []" by (simp add: pool_inv_def terminated_drained_def)
  moreover have "result (packaged s ! t) \<noteq> Pending" if t: "t < length (packaged s)" for t
  proof
    assume "result (packaged s ! t) = Pending"
    with assms(1) e t have "held (workers s) t"
      by (auto simp: pool_inv_def pending_owned_def pending_def)
    with allt show False by (auto simp: held_def)
  qed
  ultimately show ?thesis by simp
qed

lemma exit_stopped:
  assumes "i < length (workers s)" "workers s ! i \<noteq> Terminated"
    "workers (worker_step i s) ! i = Terminated"
  shows "stop s \<and> tasks s = []"
proof (cases rule: fire_cases [of "Work i" s])
  case stutter
  with assms show ?thesis by simp
qed (use assms in \<open>auto simp: nth_update_if\<close>)

lemma notify_all_none_waiting: "Waiting \<notin> set (workers (notify_all s))"
  by (auto simp: notify_all_def)

text \<open>
  C2, amended. For every pool constructed with at least one worker: the destructor sets
  \<^verbatim>\<open>stop\<close> in one locked step, its \<^verbatim>\<open>notify_all\<close> leaves no worker waiting, and once it has
  returned the queue is empty, every packaged task ever enqueued holds the outcome of its
  callable, and every worker has terminated. A worker terminates only in a state where
  \<^verbatim>\<open>stop\<close> is set and the queue is empty.
\<close>

theorem shutdown_drains:
  assumes "0 < n"
  shows "(owner (run es (ThreadPool n)) = Alive \<longrightarrow>
            stop (dtor_step (run es (ThreadPool n))) \<and>
            owner (dtor_step (run es (ThreadPool n))) = Stopped) \<and>
         (owner (run es (ThreadPool n)) = Stopped \<longrightarrow>
            Waiting \<notin> set (workers (dtor_step (run es (ThreadPool n)))) \<and>
            owner (dtor_step (run es (ThreadPool n))) = Joining 0) \<and>
         (owner (run es (ThreadPool n)) = Returned \<longrightarrow>
            tasks (run es (ThreadPool n)) = [] \<and>
            (\<forall>t<length (packaged (run es (ThreadPool n))).
               result (packaged (run es (ThreadPool n)) ! t)
                 = settle (callable (packaged (run es (ThreadPool n)) ! t))) \<and>
            (\<forall>i<n. workers (run es (ThreadPool n)) ! i = Terminated)) \<and>
         (i < n \<and> workers (run es (ThreadPool n)) ! i \<noteq> Terminated \<and>
          workers (worker_step i (run es (ThreadPool n))) ! i = Terminated \<longrightarrow>
            stop (run es (ThreadPool n)) \<and> tasks (run es (ThreadPool n)) = [])"
proof -
  let ?s = "run es (ThreadPool n) :: 'a pool"
  have inv: "pool_inv ?s" by (rule inv_reachable)
  have len: "length (workers ?s) = n" by simp
  have ne: "workers ?s \<noteq> []" using assms len by (metis length_0_conv less_irrefl)
  have 1: "stop (dtor_step ?s) \<and> owner (dtor_step ?s) = Stopped" if "owner ?s = Alive"
    using that by (simp add: dtor_step_def)
  have 2: "Waiting \<notin> set (workers (dtor_step ?s)) \<and> owner (dtor_step ?s) = Joining 0"
    if "owner ?s = Stopped"
    using that notify_all_none_waiting [of ?s] by (simp add: dtor_step_def)
  have 3: "tasks ?s = [] \<and>
      (\<forall>t<length (packaged ?s). result (packaged ?s ! t) = settle (callable (packaged ?s ! t))) \<and>
      (\<forall>i<n. workers ?s ! i = Terminated)" if "owner ?s = Returned"
    using returned_drained [OF inv ne that] results_okD [OF inv] len by auto
  have 4: "stop ?s \<and> tasks ?s = []"
    if "i < n \<and> workers ?s ! i \<noteq> Terminated \<and> workers (worker_step i ?s) ! i = Terminated"
    using that exit_stopped [of i ?s] len by simp
  from 1 2 3 4 show ?thesis by blast
qed


theorem shutdown_drains_witness:
  "(0::nat) < 1 \<and>
   owner (run [Push (bind_args Inr (42::int)), Notify 0, Work 0, Dtor, Dtor, Work 0, Work 0, Dtor, Dtor]
            (ThreadPool 1)) = Returned \<and>
   tasks (run [Push (bind_args Inr (42::int)), Notify 0, Work 0, Dtor, Dtor, Work 0, Work 0, Dtor, Dtor]
            (ThreadPool 1)) = [] \<and>
   future_get 0 (run [Push (bind_args Inr (42::int)), Notify 0, Work 0, Dtor, Dtor, Work 0, Work 0, Dtor, Dtor]
            (ThreadPool 1)) = Some (Inr 42) \<and>
   workers (run [Push (bind_args Inr (42::int)), Notify 0, Work 0, Dtor, Dtor, Work 0, Work 0, Dtor, Dtor]
            (ThreadPool 1)) = [Terminated]"
  using shutdown_drains [of 1
      "[Push (bind_args Inr (42::int)), Notify 0, Work 0, Dtor, Dtor, Work 0, Work 0, Dtor, Dtor]" 0]
  by (simp add: ThreadPool_def enqueue_push_def Let_def dtor_step_def worker_step_def
      worker_fetch_def set_worker_def notify_all_def notify_one_def waiting_def invoke_def
      settle_def bind_args_def future_get_def)

text \<open>
  The claim as stated, for every pool, fails for a pool of no workers: the destructor
  returns while the task enqueued before it is still in the queue and was never run.
\<close>

theorem shutdown_zero_threads_counterexample:
  "owner (run [Push (bind_args Inr (42::int)), Notify 0, Dtor, Dtor, Dtor] (ThreadPool 0)) = Returned \<and>
   tasks (run [Push (bind_args Inr (42::int)), Notify 0, Dtor, Dtor, Dtor] (ThreadPool 0)) = [0] \<and>
   future_get 0 (run [Push (bind_args Inr (42::int)), Notify 0, Dtor, Dtor, Dtor] (ThreadPool 0)) = None \<and>
   invoked [Push (bind_args Inr (42::int)), Notify 0, Dtor, Dtor, Dtor] (ThreadPool 0) = []"
  by (simp add: ThreadPool_def enqueue_push_def Let_def dtor_step_def 
      notify_all_def notify_one_def waiting_def future_get_def)

section \<open>The pull loop of a worker\<close>

text \<open>
  C3. In the locked block of its loop a worker blocks when the queue is empty and
  \<^verbatim>\<open>stop\<close> is not set; with \<^verbatim>\<open>stop\<close> set and the queue empty it exits; in every other case
  it removes and returns exactly the head of the queue. A worker blocked in \<^verbatim>\<open>wait\<close> does
  nothing until it is woken, and a woken worker evaluates the same block again.
\<close>

theorem worker_pull:
  "(\<not> stop s \<and> tasks s = [] \<longrightarrow> worker_fetch s = (Block, s)) \<and>
   (stop s \<and> tasks s = [] \<longrightarrow> worker_fetch s = (Exit, s)) \<and>
   (tasks s \<noteq> [] \<longrightarrow>
      worker_fetch s = (Got (hd (tasks s)), s\<lparr>tasks := tl (tasks s)\<rparr>)) \<and>
   (i < length (workers s) \<and> workers s ! i = Waiting \<longrightarrow> worker_step i s = s) \<and>
   (i < length (workers s) \<and> workers s ! i = Ready \<longrightarrow>
      worker_step i s =
        (case worker_fetch s of
           (Block, s') \<Rightarrow> s'\<lparr>workers := (workers s)[i := Waiting]\<rparr>
         | (Exit, s') \<Rightarrow> s'\<lparr>workers := (workers s)[i := Terminated]\<rparr>
         | (Got t, s') \<Rightarrow> s'\<lparr>workers := (workers s)[i := Running t]\<rparr>))"
  by (simp add: worker_fetch_def worker_step_def set_worker_def)

theorem worker_pull_witness:
  "tasks (fire (Push (bind_args Inr (7::int))) (ThreadPool 1)) \<noteq> [] \<and>
   worker_fetch (fire (Push (bind_args Inr (7::int))) (ThreadPool 1))
     = (Got 0, (fire (Push (bind_args Inr 7)) (ThreadPool 1))\<lparr>tasks := []\<rparr>) \<and>
   workers (worker_step 0 (fire (Push (bind_args Inr (7::int))) (ThreadPool 1))) = [Running 0] \<and>
   worker_fetch (ThreadPool 1 :: int pool) = (Block, ThreadPool 1) \<and>
   worker_step 0 (worker_step 0 (ThreadPool 1 :: int pool)) = worker_step 0 (ThreadPool 1) \<and>
   worker_fetch (fire Dtor (ThreadPool 1 :: int pool)) = (Exit, fire Dtor (ThreadPool 1))"
  using worker_pull [of "fire (Push (bind_args Inr (7::int))) (ThreadPool 1)" 0]
    worker_pull [of "ThreadPool 1 :: int pool" 0]
    worker_pull [of "worker_step 0 (ThreadPool 1 :: int pool)" 0]
    worker_pull [of "fire Dtor (ThreadPool 1 :: int pool)" 0]
  by (simp add: ThreadPool_def enqueue_push_def Let_def dtor_step_def worker_step_def
      worker_fetch_def set_worker_def)

section \<open>A task whose callable throws\<close>

lemma no_crash_reachable:
  "j < n \<Longrightarrow> workers (run es (ThreadPool n)) ! j \<noteq> Crashed"
  using inv_reachable [of es n] by (simp add: pool_inv_def no_crash_def)

text \<open>
  C4. When a worker of a reachable pool holds a task whose callable throws \<open>x\<close>, its next
  step stores \<open>x\<close> as the failure of that task's future, which was not set before, and
  takes the worker back to the head of its loop, from where its following step takes the
  next task of the queue; the queue and every other future are unchanged by the failure.
  No worker of a reachable pool is ever crashed, and from then on \<^verbatim>\<open>get\<close> on the future
  rethrows \<open>x\<close>, which surfaces nowhere else.
\<close>

theorem failure_captured:
  assumes "i < n"
    and "workers (run es (ThreadPool n)) ! i = Running t"
    and "callable (packaged (run es (ThreadPool n)) ! t) () = Inl x"
  shows "future_get t (run es (ThreadPool n)) = None \<and>
         future_get t (run (es @ [Work i]) (ThreadPool n)) = Some (Inl x) \<and>
         workers (run (es @ [Work i]) (ThreadPool n)) ! i = Ready \<and>
         tasks (run (es @ [Work i]) (ThreadPool n)) = tasks (run es (ThreadPool n)) \<and>
         (\<forall>u. u \<noteq> t \<longrightarrow>
            future_get u (run (es @ [Work i]) (ThreadPool n)) = future_get u (run es (ThreadPool n))) \<and>
         (\<forall>es' j. j < n \<longrightarrow> workers (run (es @ [Work i] @ es') (ThreadPool n)) ! j \<noteq> Crashed) \<and>
         (\<forall>es'. future_get t (run (es @ [Work i] @ es') (ThreadPool n)) = Some (Inl x)) \<and>
         (tasks (run es (ThreadPool n)) \<noteq> [] \<longrightarrow>
            workers (run (es @ [Work i, Work i]) (ThreadPool n)) ! i
              = Running (hd (tasks (run es (ThreadPool n)))))"
proof -
  let ?s = "run es (ThreadPool n) :: 'a pool"
  let ?s' = "worker_step i ?s"
  have inv: "pool_inv ?s" by (rule inv_reachable)
  have i: "i < length (workers ?s)" using assms(1) by simp
  from running_pending [OF inv i assms(2)]
  have t: "t < length (packaged ?s)" "result (packaged ?s ! t) = Pending" by simp_all
  have s': "?s' = ?s\<lparr>packaged := (packaged ?s)[t := (packaged ?s ! t)\<lparr>result := Failure x\<rparr>],
                      workers := (workers ?s)[i := Ready]\<rparr>"
    using i assms(2,3) t by (simp add: worker_step_def invoke_def set_worker_def settle_def)
  have r: "run (es @ [Work i]) (ThreadPool n) = ?s'" by (simp add: run_append)
  have 1: "future_get t ?s = None" using t by (simp add: future_get_def)
  have 2: "future_get t ?s' = Some (Inl x)" using t by (simp add: s' future_get_def)
  have 3: "workers ?s' ! i = Ready" using i by (simp add: s')
  have 4: "tasks ?s' = tasks ?s" by (simp add: s')
  have 5: "future_get u ?s' = future_get u ?s" if "u \<noteq> t" for u
    using that by (simp add: s' future_get_def)
  have 6: "workers (run (es @ [Work i] @ es') (ThreadPool n)) ! j \<noteq> Crashed" if "j < n" for es' j
    using that by (rule no_crash_reachable)
  have 7: "future_get t (run (es @ [Work i] @ es') (ThreadPool n)) = Some (Inl x)" for es'
  proof -
    have t': "t < length (packaged ?s')" "result (packaged ?s' ! t) = Failure x"
      using t by (simp_all add: s')
    from packaged_run [OF t'(1), of es'] t'(2)
    show ?thesis by (simp add: run_append future_get_def)
  qed
  have r2: "run (es @ [Work i, Work i]) (ThreadPool n) = worker_step i ?s'"
    by (simp add: run_append)
  have 8: "workers (worker_step i ?s') ! i = Running (hd (tasks ?s))" if "tasks ?s \<noteq> []"
    using that i unfolding s' by (simp add: worker_step_def worker_fetch_def set_worker_def)
  from 1 2 3 4 5 6 7 8 show ?thesis unfolding r r2 by blast
qed

theorem failure_captured_witness:
  "(0::nat) < 1 \<and>
   workers (run [Push (bind_args Inl (Exception ''boom'')), Push (bind_args Inr (7::int)), Work 0]
     (ThreadPool 1)) ! 0 = Running 0 \<and>
   future_get 0 (run ([Push (bind_args Inl (Exception ''boom'')), Push (bind_args Inr (7::int)), Work 0]
     @ [Work 0]) (ThreadPool 1)) = Some (Inl (Exception ''boom'')) \<and>
   workers (run ([Push (bind_args Inl (Exception ''boom'')), Push (bind_args Inr (7::int)), Work 0]
     @ [Work 0]) (ThreadPool 1)) ! 0 = Ready \<and>
   future_get 1 (run ([Push (bind_args Inl (Exception ''boom'')), Push (bind_args Inr (7::int)), Work 0]
     @ [Work 0] @ [Work 0, Work 0]) (ThreadPool 1)) = Some (Inr 7)"
  using failure_captured [of 0 1
      "[Push (bind_args Inl (Exception ''boom'')), Push (bind_args Inr (7::int)), Work 0]"
      0 "Exception ''boom''"]
  by (simp add: ThreadPool_def enqueue_push_def Let_def worker_step_def
      worker_fetch_def set_worker_def invoke_def settle_def bind_args_def future_get_def)

section \<open>Order of availability\<close>

lemma tasks_fire_cases:
  "tasks (fire e s) = tasks s \<or> tasks (fire e s) = tl (tasks s) \<or>
   tasks (fire e s) = tasks s @ [length (packaged s)]"
  by (cases rule: fire_cases [of e s]) simp_all

lemma fetch_head:
  "fst (worker_fetch s) = Got b \<Longrightarrow> tasks s \<noteq> [] \<and> b = hd (tasks s)"
  by (auto simp: worker_fetch_def split: if_splits)

lemma sorted_hd_least: "sorted_wrt (<) (xs::nat list) \<Longrightarrow> a \<in> set xs \<Longrightarrow> hd xs \<le> a"
  by (cases xs) auto

text \<open>
  C5. In every reachable state the queue is in the order of submission: a step leaves
  the queue as it is, removes its head, or appends a task whose index is larger than
  every index in it, so the queue is strictly increasing. A worker that takes a task takes
  the head: it never gets \<open>b\<close> while a task \<open>a\<close> pushed before \<open>b\<close> is still in the
  queue, whether "before" is read by index or by position.
\<close>

theorem fifo_availability:
  "sorted_wrt (<) (tasks (run es (ThreadPool n))) \<and>
   (\<forall>a\<in>set (tasks (run es (ThreadPool n))). a < length (packaged (run es (ThreadPool n)))) \<and>
   (tasks (run (es @ [e]) (ThreadPool n)) = tasks (run es (ThreadPool n)) \<or>
    tasks (run (es @ [e]) (ThreadPool n)) = tl (tasks (run es (ThreadPool n))) \<or>
    tasks (run (es @ [e]) (ThreadPool n))
      = tasks (run es (ThreadPool n)) @ [length (packaged (run es (ThreadPool n)))]) \<and>
   (\<forall>a\<in>set (tasks (run es (ThreadPool n))). \<forall>b. a < b \<longrightarrow>
      fst (worker_fetch (run es (ThreadPool n))) \<noteq> Got b) \<and>
   (\<forall>p q. p < q \<and> q < length (tasks (run es (ThreadPool n))) \<longrightarrow>
      fst (worker_fetch (run es (ThreadPool n))) \<noteq> Got (tasks (run es (ThreadPool n)) ! q))"
proof -
  let ?s = "run es (ThreadPool n) :: 'a pool"
  have "pool_inv ?s" by (rule inv_reachable)
  then have qs: "sorted_wrt (<) (tasks ?s)" and bd: "\<forall>a\<in>set (tasks ?s). a < length (packaged ?s)"
    by (simp_all add: pool_inv_def queue_sorted_def)
  have st: "tasks (run (es @ [e]) (ThreadPool n)) = tasks ?s \<or>
    tasks (run (es @ [e]) (ThreadPool n)) = tl (tasks ?s) \<or>
    tasks (run (es @ [e]) (ThreadPool n)) = tasks ?s @ [length (packaged ?s)]"
    using tasks_fire_cases [of e ?s] by (simp add: run_append)
  have ord: "fst (worker_fetch ?s) \<noteq> Got b" if "a \<in> set (tasks ?s)" "a < b" for a b
  proof
    assume "fst (worker_fetch ?s) = Got b"
    then have "b = hd (tasks ?s)" by (simp add: fetch_head)
    with sorted_hd_least [OF qs that(1)] that(2) show False by simp
  qed
  have pos: "fst (worker_fetch ?s) \<noteq> Got (tasks ?s ! q)" if "p < q" "q < length (tasks ?s)" for p q
  proof -
    from that have "tasks ?s ! p < tasks ?s ! q" using qs by (simp add: sorted_wrt_nth_less)
    moreover from that have "tasks ?s ! p \<in> set (tasks ?s)" by simp
    ultimately show ?thesis by (rule ord [rotated])
  qed
  from qs bd st ord pos show ?thesis by blast
qed

theorem fifo_availability_witness:
  "tasks (run [Push (bind_args Inr (1::int)), Push (bind_args Inr 2)] (ThreadPool 2)) = [0, 1] \<and>
   fst (worker_fetch (run [Push (bind_args Inr (1::int)), Push (bind_args Inr 2)] (ThreadPool 2)))
     = Got 0 \<and>
   fst (worker_fetch (run [Push (bind_args Inr (1::int)), Push (bind_args Inr 2)] (ThreadPool 2)))
     \<noteq> Got 1 \<and>
   tasks (run ([Push (bind_args Inr (1::int)), Push (bind_args Inr 2)] @ [Work 1]) (ThreadPool 2)) = [1]"
  using fifo_availability [of "[Push (bind_args Inr (1::int)), Push (bind_args Inr 2)]" 2 "Work 1"]
  by (simp add: ThreadPool_def enqueue_push_def Let_def worker_step_def
      worker_fetch_def set_worker_def)

section \<open>The value behind a future\<close>














section \<open>The stop flag\<close>

lemma stop_fire: "stop s \<Longrightarrow> stop (fire e s)"
  by (cases rule: fire_cases [of e s]) simp_all

lemma stop_tasks_fire:
  "stop s \<Longrightarrow> tasks (fire e s) = tasks s \<or> tasks (fire e s) = tl (tasks s)"
  by (cases rule: fire_cases [of e s]) simp_all

lemma stop_packaged_fire: "stop s \<Longrightarrow> length (packaged (fire e s)) = length (packaged s)"
  by (cases rule: fire_cases [of e s]) simp_all

lemma stop_run:
  "stop s \<Longrightarrow>
   stop (run es s) \<and> (\<exists>k. tasks (run es s) = drop k (tasks s)) \<and>
   length (packaged (run es s)) = length (packaged s)"
proof (induction es arbitrary: s)
  case Nil
  show ?case using Nil by (auto intro: exI [of _ 0])
next
  case (Cons e es)
  from Cons.IH [OF stop_fire [OF Cons.prems], of e]
  obtain k where k: "tasks (run es (fire e s)) = drop k (tasks (fire e s))"
    and st: "stop (run es (fire e s))"
    and len: "length (packaged (run es (fire e s))) = length (packaged (fire e s))" by auto
  from stop_tasks_fire [OF Cons.prems, of e]
  have "\<exists>j. tasks (run es (fire e s)) = drop j (tasks s)"
  proof
    assume "tasks (fire e s) = tasks s"
    with k show ?thesis by auto
  next
    assume "tasks (fire e s) = tl (tasks s)"
    with k have "tasks (run es (fire e s)) = drop (Suc k) (tasks s)"
      by (simp add: drop_Suc drop_tl)
    then show ?thesis ..
  qed
  with st len stop_packaged_fire [OF Cons.prems, of e] show ?case by simp
qed

text \<open>
  C7. \<^verbatim>\<open>stop\<close> is false after construction; once it is true it stays true along every
  schedule, the queue only loses tasks at its head, no packaged task is added to the
  store, and every further push is rejected.
\<close>

theorem stop_monotone:
  "\<not> stop (ThreadPool n) \<and>
   (stop s \<longrightarrow>
      stop (run es s) \<and>
      (\<exists>k. tasks (run es s) = drop k (tasks s)) \<and>
      length (packaged (run es s)) = length (packaged s) \<and>
      fst (enqueue_push c (run es s)) = Inl (runtime_error ''enqueue on stopped ThreadPool''))"
proof -
  have "\<not> stop (ThreadPool n)" by (simp add: ThreadPool_def)
  moreover have "fst (enqueue_push c (run es s)) = Inl (runtime_error ''enqueue on stopped ThreadPool'')"
    if "stop s"
    using stop_run [OF that, of es] by (simp add: enqueue_push_def Let_def)
  ultimately show ?thesis using stop_run [of s es] by blast
qed

theorem stop_monotone_witness:
  "stop (run [Push (bind_args Inr (1::int)), Dtor] (ThreadPool 1)) \<and>
   stop (run [Push (bind_args Inr 2), Work 0, Dtor]
          (run [Push (bind_args Inr (1::int)), Dtor] (ThreadPool 1))) \<and>
   tasks (run [Push (bind_args Inr 2), Work 0, Dtor]
          (run [Push (bind_args Inr (1::int)), Dtor] (ThreadPool 1))) = [] \<and>
   tasks (run [Push (bind_args Inr (1::int)), Dtor] (ThreadPool 1)) = [0] \<and>
   length (packaged (run [Push (bind_args Inr 2), Work 0, Dtor]
          (run [Push (bind_args Inr (1::int)), Dtor] (ThreadPool 1)))) = 1"
  using stop_monotone [of 1 "run [Push (bind_args Inr (1::int)), Dtor] (ThreadPool 1)"
      "[Push (bind_args Inr 2), Work 0, Dtor]" "bind_args Inr 3"]
  by (simp add: ThreadPool_def enqueue_push_def Let_def dtor_step_def worker_step_def
      worker_fetch_def set_worker_def notify_all_def)

section \<open>Every task completes, once\<close>

lemma settled_case:
  "r = settle c \<Longrightarrow>
   (case r of Pending \<Rightarrow> False | Value v \<Rightarrow> c () = Inr v | Failure x \<Rightarrow> c () = Inl x)"
  by (simp add: settle_def split: sum.splits)

lemma concat_no_push:
  "list_all (fair_round n) rs \<Longrightarrow> \<not> list_ex is_push (concat rs)"
  by (auto simp: list_ex_iff list_all_iff fair_round_def)

text \<open>
  C8, amended. For a pool constructed with at least one worker and any reachable state
  of it: after twice as many fair rounds as the backlog of that state (rounds that
  schedule every worker and one pending \<^verbatim>\<open>notify_one\<close>, and submit nothing), and along any
  continuation, every task submitted so far holds exactly one outcome, the value its
  callable returned or the failure it threw. Along every schedule no task is invoked
  twice and none is taken from the queue twice.
\<close>

theorem tasks_complete_once:
  fixes es es' es'' :: "'a event list" and rs :: "'a event list list"
  assumes "0 < n"
    and "list_all (fair_round n) rs"
    and "2 * backlog (run es (ThreadPool n)) \<le> length rs"
  shows "(\<forall>t<length (packaged (run es (ThreadPool n))).
            case result (packaged (run (es @ concat rs @ es') (ThreadPool n)) ! t) of
              Pending \<Rightarrow> False
            | Value v \<Rightarrow> callable (packaged (run es (ThreadPool n)) ! t) () = Inr v
            | Failure x \<Rightarrow> callable (packaged (run es (ThreadPool n)) ! t) () = Inl x) \<and>
         distinct (invoked es'' (ThreadPool n :: 'a pool)) \<and>
         distinct (popped es'' (ThreadPool n :: 'a pool))"
proof -
  let ?s = "run es (ThreadPool n) :: 'a pool"
  let ?d = "run (concat rs) ?s"
  let ?f = "run es' ?d"
  have inv: "pool_inv ?s" by (rule inv_reachable)
  have invd: "pool_inv ?d" using inv by (rule inv_run)
  have ne: "workers ?s \<noteq> []" using assms(1) by (metis length_workers_run length_workers_init length_0_conv less_irrefl)
  have fr: "list_all (fair_round (length (workers ?s))) rs" using assms(2) by simp
  have b0: "backlog ?d = 0" by (rule rounds_drain [OF inv ne fr order_refl assms(3)])
  have len: "length (packaged ?d) = length (packaged ?s)"
    by (rule length_packaged_run [OF concat_no_push [OF assms(2)]])
  have "case result (packaged ?f ! t) of Pending \<Rightarrow> False
      | Value v \<Rightarrow> callable (packaged ?s ! t) () = Inr v
      | Failure x \<Rightarrow> callable (packaged ?s ! t) () = Inl x"
    if t: "t < length (packaged ?s)" for t
  proof -
    from t len have td: "t < length (packaged ?d)" by simp
    from backlog_0 [OF b0 td] have np: "result (packaged ?d ! t) \<noteq> Pending" .
    from results_okD [OF invd td np] packaged_run [OF t, of "concat rs"]
    have "result (packaged ?d ! t) = settle (callable (packaged ?s ! t))" by simp
    with packaged_run [OF td, of es'] np
    have "result (packaged ?f ! t) = settle (callable (packaged ?s ! t))" by simp
    then show ?thesis by (rule settled_case)
  qed
  moreover have "distinct (invoked es'' (ThreadPool n :: 'a pool))"
    using invoked_pending [OF inv_init, of es'' n] by simp
  moreover have "distinct (popped es'' (ThreadPool n :: 'a pool))"
    using popped_queued [OF inv_init, of es'' n] by simp
  ultimately show ?thesis by (simp add: run_append)
qed

theorem tasks_complete_once_witness:
  "(0::nat) < 1 \<and>
   list_all (fair_round 1) (replicate 8 [Notify 0, Work 0 :: int event]) \<and>
   2 * backlog (run [Push (bind_args Inr (5::int)), Push (bind_args Inl (Exception ''bad''))]
     (ThreadPool 1)) \<le> length (replicate 8 [Notify 0, Work 0 :: int event]) \<and>
   result (packaged (run ([Push (bind_args Inr (5::int)), Push (bind_args Inl (Exception ''bad''))]
     @ concat (replicate 8 [Notify 0, Work 0]) @ [Dtor]) (ThreadPool 1)) ! 0) = Value 5 \<and>
   result (packaged (run ([Push (bind_args Inr (5::int)), Push (bind_args Inl (Exception ''bad''))]
     @ concat (replicate 8 [Notify 0, Work 0]) @ [Dtor]) (ThreadPool 1)) ! 1)
     = Failure (Exception ''bad'') \<and>
   invoked ([Push (bind_args Inr (5::int)), Push (bind_args Inl (Exception ''bad''))]
     @ concat (replicate 8 [Notify 0, Work 0]) @ [Dtor]) (ThreadPool 1) = [0, 1]"
proof -
  have h1: "(0::nat) < 1" by simp
  have h2: "list_all (fair_round 1) (replicate 8 [Notify 0, Work 0 :: int event])"
    by (simp add: fair_round_def list_all_iff)
  have h3: "2 * backlog (run [Push (bind_args Inr (5::int)), Push (bind_args Inl (Exception ''bad''))]
     (ThreadPool 1)) \<le> length (replicate 8 [Notify 0, Work 0 :: int event])"
    by (simp add: backlog_def ThreadPool_def enqueue_push_def Let_def)
  have e: "replicate 8 [Notify 0, Work 0 :: int event] =
     [[Notify 0, Work 0], [Notify 0, Work 0], [Notify 0, Work 0], [Notify 0, Work 0],
      [Notify 0, Work 0], [Notify 0, Work 0], [Notify 0, Work 0], [Notify 0, Work 0]]"
    by (simp add: eval_nat_numeral)
  from h1 h2 h3 tasks_complete_once [OF h1 h2 h3, of "[Dtor]" 
      "[Push (bind_args Inr (5::int)), Push (bind_args Inl (Exception ''bad''))]
        @ concat (replicate 8 [Notify 0, Work 0]) @ [Dtor]"]
  show ?thesis
    unfolding e
    by (simp add: ThreadPool_def enqueue_push_def Let_def worker_step_def
      worker_fetch_def set_worker_def invoke_def settle_def bind_args_def notify_one_def
      waiting_def dtor_step_def)
qed

text \<open>
  The claim as stated, for every sequence of submitted tasks, fails for a pool of no
  workers: no schedule ever completes the task submitted to it.
\<close>

theorem never_completes_zero_threads_counterexample:
  "\<not> (\<exists>es. future_get 0 (run es (fire (Push (bind_args Inr (42::int))) (ThreadPool 0))) \<noteq> None)"
proof -
  let ?s = "fire (Push (bind_args Inr (42::int))) (ThreadPool 0)"
  have "workers ?s = []" "\<forall>p\<in>set (packaged ?s). result p = Pending"
    by (simp_all add: ThreadPool_def enqueue_push_def Let_def)
  from no_workers_get [OF this] show ?thesis by simp
qed

section \<open>Signals\<close>

lemma waiting_frame:
  "waiting (s\<lparr>tasks := a\<rparr>) = waiting s"
  "waiting (s\<lparr>packaged := b\<rparr>) = waiting s"
  by (simp_all add: waiting_def)

lemma notify_one_workers:
  "(waiting s = [] \<longrightarrow> workers (notify_one k s) = workers s) \<and>
   (waiting s \<noteq> [] \<longrightarrow> (\<exists>w\<in>set (waiting s). workers (notify_one k s) = (workers s)[w := Ready]))"
proof (cases "waiting s")
  case Nil
  then show ?thesis by (simp add: notify_one_def)
next
  case (Cons w ws)
  have "(w # ws) ! (k mod length (w # ws)) \<in> set (w # ws)" by (rule nth_mem) simp
  then show ?thesis by (auto simp: notify_one_def Cons)
qed

lemma notify_one_tasks: "tasks (notify_one k s) = tasks s"
  by (simp add: notify_one_def split: list.splits)

text \<open>
  C9, amended. While the pool is not stopping, a push succeeds whatever the length of
  the queue and appends the task to its tail in the locked block; the \<^verbatim>\<open>notify_one\<close> that
  follows wakes exactly one waiting worker when at least one is waiting, leaving all
  others as they are, and nobody otherwise. \<^verbatim>\<open>notify_all\<close>, which the destructor calls,
  wakes every waiting worker.
\<close>

theorem push_signals_one:
  "(\<not> stop s \<longrightarrow>
      enqueue_push (bind_args f args) s =
        (Inr (length (packaged s)),
         s\<lparr>packaged := packaged s @ [\<lparr>callable = bind_args f args, result = Pending\<rparr>],
           tasks := tasks s @ [length (packaged s)]\<rparr>) \<and>
      fst (enqueue k f args s) = Inr (length (packaged s)) \<and>
      tasks (snd (enqueue k f args s)) = tasks s @ [length (packaged s)] \<and>
      (waiting s = [] \<longrightarrow> workers (snd (enqueue k f args s)) = workers s) \<and>
      (waiting s \<noteq> [] \<longrightarrow>
         (\<exists>w\<in>set (waiting s). workers (snd (enqueue k f args s)) = (workers s)[w := Ready]))) \<and>
   waiting (notify_all s) = [] \<and>
   (\<forall>i<length (workers s).
      workers (notify_all s) ! i = (if workers s ! i = Waiting then Ready else workers s ! i)) \<and>
   (owner s = Stopped \<longrightarrow> workers (dtor_step s) = workers (notify_all s))"
proof -
  let ?s1 = "s\<lparr>packaged := packaged s @ [\<lparr>callable = bind_args f args, result = Pending\<rparr>],
                tasks := tasks s @ [length (packaged s)]\<rparr>"
  have p: "enqueue_push (bind_args f args) s = (Inr (length (packaged s)), ?s1)" if "\<not> stop s"
    using that by (simp add: enqueue_push_def Let_def)
  have w: "waiting ?s1 = waiting s" "workers ?s1 = workers s"
    by (simp_all add: waiting_frame)
  have 1: "fst (enqueue k f args s) = Inr (length (packaged s)) \<and>
      tasks (snd (enqueue k f args s)) = tasks s @ [length (packaged s)] \<and>
      (waiting s = [] \<longrightarrow> workers (snd (enqueue k f args s)) = workers s) \<and>
      (waiting s \<noteq> [] \<longrightarrow>
         (\<exists>w\<in>set (waiting s). workers (snd (enqueue k f args s)) = (workers s)[w := Ready]))"
    if "\<not> stop s"
    using notify_one_workers [of ?s1 k] unfolding w
    by (simp add: enqueue_def p [OF that] notify_one_tasks)
  have 2: "waiting (notify_all s) = []"
    by (auto simp: waiting_def notify_all_def filter_empty_conv)
  have 3: "\<forall>i<length (workers s).
      workers (notify_all s) ! i = (if workers s ! i = Waiting then Ready else workers s ! i)"
    by (simp add: notify_all_def)
  have 4: "workers (dtor_step s) = workers (notify_all s)" if "owner s = Stopped"
    using that by (simp add: dtor_step_def)
  from p 1 2 3 4 show ?thesis by blast
qed

theorem push_signals_one_witness:
  "\<not> stop (run [Work 0, Work 1] (ThreadPool 2 :: int pool)) \<and>
   waiting (run [Work 0, Work 1] (ThreadPool 2 :: int pool)) = [0, 1] \<and>
   enqueue 0 Inr (5::int) (run [Work 0, Work 1] (ThreadPool 2)) =
     (Inr 0, \<lparr>workers = [Ready, Waiting], tasks = [0], stop = False,
              packaged = [\<lparr>callable = bind_args Inr 5, result = Pending\<rparr>],
              notifying = 0, owner = Alive\<rparr>) \<and>
   owner (run [Work 0, Work 1, Dtor] (ThreadPool 2 :: int pool)) = Stopped \<and>
   workers (run [Work 0, Work 1, Dtor] (ThreadPool 2 :: int pool)) = [Waiting, Waiting] \<and>
   workers (dtor_step (run [Work 0, Work 1, Dtor] (ThreadPool 2 :: int pool))) = [Ready, Ready]"
  using push_signals_one [of "run [Work 0, Work 1] (ThreadPool 2 :: int pool)" Inr 5 0]
    push_signals_one [of "run [Work 0, Work 1, Dtor] (ThreadPool 2 :: int pool)" Inr 5 0]
  by (simp add: ThreadPool_def enqueue_def enqueue_push_def Let_def worker_step_def
      worker_fetch_def set_worker_def notify_one_def notify_all_def waiting_def dtor_step_def
      eval_nat_numeral)

text \<open>
  The claim as stated, for every push, fails when no worker is waiting: the only
  worker is running a task, the push succeeds, and \<^verbatim>\<open>notify_one\<close> wakes nobody.
\<close>

theorem push_wakes_nobody_counterexample:
  "workers (run [Push (bind_args Inr (1::int)), Notify 0, Work 0] (ThreadPool 1)) = [Running 0] \<and>
   waiting (run [Push (bind_args Inr (1::int)), Notify 0, Work 0] (ThreadPool 1)) = [] \<and>
   fst (enqueue 0 Inr (2::int) (run [Push (bind_args Inr (1::int)), Notify 0, Work 0] (ThreadPool 1)))
     = Inr 1 \<and>
   workers (snd (enqueue 0 Inr (2::int)
      (run [Push (bind_args Inr (1::int)), Notify 0, Work 0] (ThreadPool 1)))) = [Running 0]"
  by (simp add: ThreadPool_def enqueue_def enqueue_push_def Let_def worker_step_def
      worker_fetch_def set_worker_def notify_one_def waiting_def)

section \<open>A pool constructed with zero threads\<close>

lemma no_workers_dtor:
  "workers s = [] \<Longrightarrow>
   (case owner s of Alive \<Rightarrow> 3 | Stopped \<Rightarrow> 2 | Joining k \<Rightarrow> 1 | Returned \<Rightarrow> 0)
     \<le> count_list es Dtor \<Longrightarrow>
   owner (run es s) = Returned"
proof (induction es arbitrary: s)
  case Nil
  then show ?case by (cases "owner s") simp_all
next
  case (Cons e es)
  from no_workers_fire [OF Cons.prems(1), of e] have w: "workers (fire e s) = []" by simp
  show ?case
  proof (cases "e = Dtor")
    case True
    with Cons.prems have "(case owner (fire e s) of Alive \<Rightarrow> 3 | Stopped \<Rightarrow> 2
        | Joining k \<Rightarrow> 1 | Returned \<Rightarrow> 0) \<le> count_list es Dtor"
      by (cases "owner s") (simp_all add: dtor_step_def notify_all_def)
    from Cons.IH [OF w this] show ?thesis by simp
  next
    case False
    then have "owner (fire e s) = owner s"
      by (cases rule: fire_cases [of e s]) simp_all
    with Cons.prems(2) False Cons.IH [OF w] show ?thesis by simp
  qed
qed

text \<open>
  C10. \<^verbatim>\<open>ThreadPool(0)\<close> constructs a pool without workers. Along every schedule it has no
  worker, no task is ever invoked and no future is ever ready; \<^verbatim>\<open>enqueue\<close> still succeeds
  while \<^verbatim>\<open>stop\<close> is false and appends to the queue; and the destructor returns after
  three steps, however they are interleaved, with the queue as it was and no task run.
\<close>

theorem zero_threads:
  "(ThreadPool 0 :: 'a pool) =
     \<lparr>workers = [], tasks = [], stop = False, packaged = [], notifying = 0, owner = Alive\<rparr> \<and>
   workers (run es (ThreadPool 0 :: 'a pool)) = [] \<and>
   invoked es (ThreadPool 0 :: 'a pool) = [] \<and>
   (\<forall>res. future_get res (run es (ThreadPool 0 :: 'a pool)) = None) \<and>
   (\<not> stop (run es (ThreadPool 0 :: 'a pool)) \<longrightarrow>
      fst (enqueue k f args (run es (ThreadPool 0 :: 'a pool)))
        = Inr (length (packaged (run es (ThreadPool 0 :: 'a pool)))) \<and>
      tasks (snd (enqueue k f args (run es (ThreadPool 0 :: 'a pool))))
        = tasks (run es (ThreadPool 0 :: 'a pool)) @ [length (packaged (run es (ThreadPool 0 :: 'a pool)))]) \<and>
   (owner (run es (ThreadPool 0 :: 'a pool)) = Alive \<longrightarrow>
      owner (run (es @ [Dtor, Dtor, Dtor]) (ThreadPool 0 :: 'a pool)) = Returned \<and>
      tasks (run (es @ [Dtor, Dtor, Dtor]) (ThreadPool 0 :: 'a pool))
        = tasks (run es (ThreadPool 0 :: 'a pool)) \<and>
      invoked (es @ [Dtor, Dtor, Dtor]) (ThreadPool 0 :: 'a pool) = []) \<and>
   (3 \<le> count_list es Dtor \<longrightarrow> owner (run es (ThreadPool 0 :: 'a pool)) = Returned)"
proof -
  let ?s = "run es (ThreadPool 0 :: 'a pool)"
  have w: "workers ?s = []"
    using no_workers_run [of "ThreadPool 0 :: 'a pool" es] by (simp add: init_no_workers)
  have g: "future_get res ?s = None" for res
    by (rule no_workers_get) (simp_all add: init_no_workers)
  have e: "fst (enqueue k f args ?s) = Inr (length (packaged ?s)) \<and>
      tasks (snd (enqueue k f args ?s)) = tasks ?s @ [length (packaged ?s)]" if "\<not> stop ?s"
    using that w by (simp add: enqueue_def enqueue_push_def Let_def notify_one_def waiting_def)
  have d: "owner (run (es @ [Dtor, Dtor, Dtor]) (ThreadPool 0 :: 'a pool)) = Returned \<and>
      tasks (run (es @ [Dtor, Dtor, Dtor]) (ThreadPool 0 :: 'a pool)) = tasks ?s"
    if "owner ?s = Alive"
    using that w by (simp add: run_append dtor_step_def notify_all_def)
  have "(ThreadPool 0 :: 'a pool) =
     \<lparr>workers = [], tasks = [], stop = False, packaged = [], notifying = 0, owner = Alive\<rparr>"
    by (simp add: ThreadPool_def)
  moreover have "owner ?s = Returned" if "3 \<le> count_list es Dtor"
    using no_workers_dtor [of "ThreadPool 0 :: 'a pool" es] that
    by (simp add: ThreadPool_def)
  ultimately show ?thesis
    using w g e d no_workers_invoked [OF init_no_workers [THEN conjunct1]] by blast
qed

theorem zero_threads_witness:
  "\<not> stop (run [] (ThreadPool 0 :: int pool)) \<and>
   enqueue 0 (square_task 3) () (run [] (ThreadPool 0)) =
     (Inr 0, \<lparr>workers = [], tasks = [0], stop = False,
              packaged = [\<lparr>callable = bind_args (square_task 3) (), result = Pending\<rparr>],
              notifying = 0, owner = Alive\<rparr>) \<and>
   owner (run [Push (bind_args (square_task 3) ())] (ThreadPool 0)) = Alive \<and>
   owner (run ([Push (bind_args (square_task 3) ())] @ [Dtor, Dtor, Dtor]) (ThreadPool 0)) = Returned \<and>
   tasks (run ([Push (bind_args (square_task 3) ())] @ [Dtor, Dtor, Dtor]) (ThreadPool 0)) = [0] \<and>
   future_get 0 (run ([Push (bind_args (square_task 3) ())] @ [Dtor, Dtor, Dtor]) (ThreadPool 0)) = None"
  using zero_threads [of "[] :: int event list" 0 "square_task 3" "()"]
    zero_threads [of "[Push (bind_args (square_task 3) ())]" 0 "square_task 3" "()"]
    zero_threads [of "[Push (bind_args (square_task 3) ())] @ [Dtor, Dtor, Dtor]" 0 "square_task 3" "()"]
  by (simp add: ThreadPool_def enqueue_def enqueue_push_def Let_def notify_one_def waiting_def)

end
